theory Spec2Isabelle
  imports Main
begin

section \<open>Data model of \<^verbatim>\<open>handlers.go\<close>\<close>

text \<open>
  \<^verbatim>\<open>os.Signal\<close> values are signal numbers (\<^verbatim>\<open>syscall.Signal\<close> is an integer type).
  A channel is identified by the order in which \<^verbatim>\<open>make\<close> allocated it.
\<close>

type_synonym signal = int
type_synonym chan = nat

text \<open>
  \<^verbatim>\<open>type Handler func(sig os.Signal) bool\<close>. A Go function value may read and write
  whatever it closes over, so a handler takes and returns the part of the program state
  that handlers own, of type \<open>'w\<close>. Handlers are total: one that panics, never returns, or
  calls back into this package is outside the model.
\<close>

type_synonym 'w Handler = "signal \<Rightarrow> 'w \<Rightarrow> bool \<times> 'w"

text \<open>
  \<^verbatim>\<open>type handler struct { hdlr Handler; soft bool; info *runtimeutil.FunctionInfo }\<close>.
  The chains hold pointers to such structs; no field is ever written after construction,
  so the model holds them by value. \<open>info\<close> is the name used in log lines.
\<close>

record 'w handler =
  hdlr :: "'w Handler"
  soft :: bool
  info :: string

text \<open>
  The package variables \<^verbatim>\<open>on\<close>, \<^verbatim>\<open>handlers\<close>, \<^verbatim>\<open>nch\<close>, \<^verbatim>\<open>done\<close> (here
  \<open>done_ch\<close>) and \<^verbatim>\<open>down\<close>, a \<^verbatim>\<open>nil\<close> map or channel being \<open>None\<close>, followed by
  what the Go runtime and \<^verbatim>\<open>os/signal\<close> hold for them:
  \<^item> \<open>nalloc\<close>: how many channels \<^verbatim>\<open>make\<close> has allocated, \<open>closed\<close>: the closed ones;
  \<^item> \<open>notified\<close>: the pairs \<open>(c, s)\<close> for which \<^verbatim>\<open>os/signal\<close> relays signal \<open>s\<close> to channel \<open>c\<close>;
  \<^item> \<open>loops\<close>: the number of live \<^verbatim>\<open>handleSignals\<close> goroutines, each parked at its \<^verbatim>\<open>select\<close>;
  \<^item> \<open>world\<close>: the state the handlers own;
  \<^item> two histories, kept only to state properties: \<open>notify_calls\<close> lists every call of
    \<^verbatim>\<open>signal.Notify\<close> and \<open>calls\<close> every handler invocation with its argument and its
    result, oldest first.

  The mutex \<^verbatim>\<open>utx\<close> appears with the goroutines, further down. The calls of the logging
  package change nothing here and are left out.
\<close>

record 'w state =
  on :: bool
  handlers :: "(signal \<rightharpoonup> 'w handler list) option"
  nch :: "chan option"
  done_ch :: "chan option"
  down :: "chan option"
  nalloc :: nat
  closed :: "chan set"
  notified :: "(chan \<times> signal) set"
  loops :: nat
  world :: 'w
  notify_calls :: "(chan \<times> signal) list"
  calls :: "('w handler \<times> signal \<times> bool) list"

text \<open>The state at process start: every package variable has its zero value.\<close>

definition init :: "'w \<Rightarrow> 'w state" where
  "init w = \<lparr>on = False, handlers = None, nch = None, done_ch = None, down = None,
     nalloc = 0, closed = {}, notified = {}, loops = 0, world = w,
     notify_calls = [], calls = []\<rparr>"

text \<open>
  What the Go runtime does where the source has no branch of its own: the panics of a
  write to a \<^verbatim>\<open>nil\<close> map, of \<^verbatim>\<open>signal.Notify\<close> on a \<^verbatim>\<open>nil\<close> channel and of
  \<^verbatim>\<open>close\<close> on a \<^verbatim>\<open>nil\<close> or closed channel, and a receive that never returns.
\<close>

datatype fault = AssignNilMap | NotifyNilChan | CloseNilChan | CloseClosedChan | BlocksForever

section \<open>Registration\<close>

text \<open>\<^verbatim>\<open>handlers[s]\<close> read as a value: the \<^verbatim>\<open>nil\<close> slice for a \<^verbatim>\<open>nil\<close> map or a missing key.\<close>

definition chain_of :: "'w state \<Rightarrow> signal \<Rightarrow> 'w handler list" where
  "chain_of st s =
     (case handlers st of None \<Rightarrow> []
      | Some m \<Rightarrow> (case m s of None \<Rightarrow> [] | Some c \<Rightarrow> c))"

text \<open>\<^verbatim>\<open>_, ok := handlers[s]\<close>.\<close>

definition has_key :: "'w state \<Rightarrow> signal \<Rightarrow> bool" where
  "has_key st s = (case handlers st of None \<Rightarrow> False | Some m \<Rightarrow> m s \<noteq> None)"

text \<open>\<^verbatim>\<open>signal.Notify(c, s)\<close>: panics on a \<^verbatim>\<open>nil\<close> channel, else relays \<open>s\<close> to \<open>c\<close> from now on.\<close>

definition signal_Notify :: "chan option \<Rightarrow> signal \<Rightarrow> 'w state \<Rightarrow> fault + 'w state" where
  "signal_Notify c s st =
     (case c of None \<Rightarrow> Inl NotifyNilChan
      | Some n \<Rightarrow> Inr (st\<lparr>notified := insert (n, s) (notified st),
                           notify_calls := notify_calls st @ [(n, s)]\<rparr>))"

text \<open>\<^verbatim>\<open>handlers[s] = c\<close>: a write to a map entry, which panics on a \<^verbatim>\<open>nil\<close> map.\<close>

definition assign :: "signal \<Rightarrow> 'w handler list \<Rightarrow> 'w state \<Rightarrow> fault + 'w state" where
  "assign s c st =
     (case handlers st of None \<Rightarrow> Inl AssignNilMap
      | Some m \<Rightarrow> Inr (st\<lparr>handlers := Some (m(s \<mapsto> c))\<rparr>))"

text \<open>
  The body of the loop \<^verbatim>\<open>for _, s := range sl\<close> of \<^verbatim>\<open>register\<close>: subscribe when \<open>s\<close> is
  not yet a key, then overwrite a soft last entry or append. The overwrite
  \<^verbatim>\<open>handlers[s][lh-1] = h\<close> writes into the slice, which is only reached with a non-empty
  chain and so with a map that is not \<^verbatim>\<open>nil\<close>.
\<close>

definition register_sig :: "'w handler \<Rightarrow> signal \<Rightarrow> 'w state \<Rightarrow> fault + 'w state" where
  "register_sig h s st =
     (case (if \<not> has_key st s then signal_Notify (nch st) s st else Inr st) of
        Inl e \<Rightarrow> Inl e
      | Inr st1 \<Rightarrow>
          (let c = chain_of st1 s; lh = length c in
           if lh > 0 \<and> soft (c ! (lh - 1))
           then Inr (st1\<lparr>handlers := map_option (\<lambda>m. m(s \<mapsto> c[lh - 1 := h])) (handlers st1)\<rparr>)
           else assign s (c @ [h]) st1))"

fun register_loop :: "'w handler \<Rightarrow> signal list \<Rightarrow> 'w state \<Rightarrow> fault + 'w state" where
  "register_loop h [] st = Inr st"
| "register_loop h (s # sl) st =
     (case register_sig h s st of Inl e \<Rightarrow> Inl e | Inr st' \<Rightarrow> register_loop h sl st')"

text \<open>
  The block under the first \<^verbatim>\<open>if !on\<close>: a new map and three new channels, allocated in
  the order \<^verbatim>\<open>done\<close>, \<^verbatim>\<open>down\<close>, \<^verbatim>\<open>nch\<close>.
\<close>

definition make_all :: "'w state \<Rightarrow> 'w state" where
  "make_all st =
     st\<lparr>handlers := Some Map.empty,
        done_ch := Some (nalloc st),
        down := Some (nalloc st + 1),
        nch := Some (nalloc st + 2),
        nalloc := nalloc st + 3\<rparr>"

text \<open>
  \<^verbatim>\<open>register\<close>, run from \<^verbatim>\<open>utx.Lock()\<close> to the deferred \<^verbatim>\<open>utx.Unlock()\<close> with no other
  goroutine in between. \<^verbatim>\<open>go handleSignals()\<close> adds a goroutine, which parks at its
  \<^verbatim>\<open>select\<close>.
\<close>

definition register :: "'w handler \<Rightarrow> signal list \<Rightarrow> 'w state \<Rightarrow> fault + 'w state" where
  "register h sl st =
     (let st1 = (if \<not> on st then make_all st else st) in
      case register_loop h sl st1 of
        Inl e \<Rightarrow> Inl e
      | Inr st2 \<Rightarrow>
          Inr (if \<not> on st2 then st2\<lparr>loops := loops st2 + 1, on := True\<rparr> else st2))"

text \<open>
  \<^verbatim>\<open>runtimeutil.FuncID\<close> belongs to another module; the exported functions take it as the
  parameter \<open>FuncID\<close>.
\<close>

definition RegisterHandler ::
  "('w Handler \<Rightarrow> string) \<Rightarrow> 'w Handler \<Rightarrow> signal list \<Rightarrow> 'w state \<Rightarrow> fault + 'w state" where
  "RegisterHandler FuncID h s = register \<lparr>hdlr = h, soft = False, info = FuncID h\<rparr> s"

definition RegisterSoftHandler ::
  "('w Handler \<Rightarrow> string) \<Rightarrow> 'w Handler \<Rightarrow> signal list \<Rightarrow> 'w state \<Rightarrow> fault + 'w state" where
  "RegisterSoftHandler FuncID h s = register \<lparr>hdlr = h, soft = True, info = FuncID h\<rparr> s"

section \<open>The dispatch loop\<close>

text \<open>
  The loop \<^verbatim>\<open>for _, h := range handlers[s]\<close> inside the function literal of
  \<^verbatim>\<open>handleSignals\<close>: call \<^verbatim>\<open>h.hdlr(s)\<close>, return at the first \<^verbatim>\<open>false\<close>. The result
  lists the invocations made, each with its argument and result, and the handlers' state
  afterwards.
\<close>

fun run_chain ::
  "'w handler list \<Rightarrow> signal \<Rightarrow> 'w \<Rightarrow> ('w handler \<times> signal \<times> bool) list \<times> 'w" where
  "run_chain [] s w = ([], w)"
| "run_chain (h # hs) s w =
     (let r = hdlr h s w in
      if \<not> fst r then ([(h, s, False)], snd r)
      else (let rest = run_chain hs s (snd r) in ((h, s, True) # fst rest, snd rest)))"

text \<open>
  The function literal itself, from \<^verbatim>\<open>utx.Lock()\<close> to the deferred \<^verbatim>\<open>utx.Unlock()\<close>.
  Reading a \<^verbatim>\<open>nil\<close> map or a missing key gives the \<^verbatim>\<open>nil\<close> slice, over which
  \<^verbatim>\<open>range\<close> makes no iteration.
\<close>

definition dispatch :: "signal \<Rightarrow> 'w state \<Rightarrow> 'w state" where
  "dispatch s st =
     (let r = run_chain (chain_of st s) s (world st) in
      st\<lparr>world := snd r, calls := calls st @ fst r\<rparr>)"

text \<open>\<^verbatim>\<open>close(c)\<close>.\<close>

definition close_chan :: "chan option \<Rightarrow> 'w state \<Rightarrow> fault + 'w state" where
  "close_chan c st =
     (case c of None \<Rightarrow> Inl CloseNilChan
      | Some n \<Rightarrow> if n \<in> closed st then Inl CloseClosedChan
                  else Inr (st\<lparr>closed := insert n (closed st)\<rparr>))"

text \<open>
  \<^verbatim>\<open>handleSignals\<close> is an endless \<^verbatim>\<open>for\<close> around a \<^verbatim>\<open>select\<close>; what it does is
  decided by which case of the \<^verbatim>\<open>select\<close> fires at each round. The model runs the
  goroutine over a finite list of such outcomes: at \<open>RDone\<close> it closes \<^verbatim>\<open>down\<close> and
  returns (one goroutine less), at \<open>RSig s\<close> it dispatches \<open>s\<close> and goes round again, and
  when the list is used up it is parked at the \<^verbatim>\<open>select\<close>, still alive.
\<close>

datatype ready = RDone | RSig signal

fun handleSignals :: "ready list \<Rightarrow> 'w state \<Rightarrow> fault + 'w state" where
  "handleSignals [] st = Inr st"
| "handleSignals (RDone # rs) st =
     (case close_chan (down st) st of
        Inl e \<Rightarrow> Inl e
      | Inr st' \<Rightarrow> Inr (st'\<lparr>loops := loops st' - 1\<rparr>))"
| "handleSignals (RSig s # rs) st = handleSignals rs (dispatch s st)"

text \<open>
  The operating system raises signal \<open>s\<close>. \<^verbatim>\<open>os/signal\<close> sends it on every channel
  subscribed to \<open>s\<close>, without blocking; \<^verbatim>\<open>nch\<close> is unbuffered, so the send succeeds when
  a goroutine is parked at the \<^verbatim>\<open>select\<close>, and that goroutine takes the case
  \<^verbatim>\<open>s := <-nch\<close>. Otherwise this package sees nothing.
\<close>

definition deliver :: "signal \<Rightarrow> 'w state \<Rightarrow> fault + 'w state" where
  "deliver s st =
     (case nch st of None \<Rightarrow> Inr st
      | Some n \<Rightarrow> if 0 < loops st \<and> (n, s) \<in> notified st
                  then handleSignals [RSig s] st else Inr st)"

section \<open>Stop\<close>

text \<open>\<^verbatim>\<open>signal.Stop(c)\<close>: nothing is relayed to \<open>c\<close> any more; no effect on \<^verbatim>\<open>nil\<close>.\<close>

definition signal_Stop :: "chan option \<Rightarrow> 'w state \<Rightarrow> 'w state" where
  "signal_Stop c st =
     (case c of None \<Rightarrow> st
      | Some n \<Rightarrow> st\<lparr>notified := {p \<in> notified st. fst p \<noteq> n}\<rparr>)"

text \<open>
  While \<^verbatim>\<open>Stop\<close> waits in \<^verbatim>\<open><-down\<close>, every live goroutine finds \<^verbatim>\<open>done\<close> closed and
  nothing arriving on \<^verbatim>\<open>nch\<close>, so its \<^verbatim>\<open>select\<close> takes the case \<^verbatim>\<open><-done\<close>.
\<close>

fun run_loops :: "nat \<Rightarrow> 'w state \<Rightarrow> fault + 'w state" where
  "run_loops 0 st = Inr st"
| "run_loops (Suc k) st =
     (case handleSignals [RDone] st of Inl e \<Rightarrow> Inl e | Inr st' \<Rightarrow> run_loops k st')"

text \<open>\<^verbatim>\<open><-c\<close> with no sender: returns at once on a closed channel, never otherwise.\<close>

definition recv_closed :: "chan option \<Rightarrow> 'w state \<Rightarrow> fault + 'w state" where
  "recv_closed c st =
     (case c of None \<Rightarrow> Inl BlocksForever
      | Some n \<Rightarrow> if n \<in> closed st then Inr st else Inl BlocksForever)"

text \<open>
  \<^verbatim>\<open>Stop\<close>, called while the dispatch goroutine is parked at its \<^verbatim>\<open>select\<close>. It takes
  no lock.
\<close>

definition Stop :: "'w state \<Rightarrow> fault + 'w state" where
  "Stop st =
     (if on st then
        (let st1 = signal_Stop (nch st) st in
         case close_chan (done_ch st1) st1 of
           Inl e \<Rightarrow> Inl e
         | Inr st2 \<Rightarrow>
             (case run_loops (loops st2) st2 of
                Inl e \<Rightarrow> Inl e
              | Inr st3 \<Rightarrow>
                  (case recv_closed (down st3) st3 of
                     Inl e \<Rightarrow> Inl e
                   | Inr st4 \<Rightarrow> Inr (st4\<lparr>on := False\<rparr>))))
      else Inr st)"

section \<open>Reachable states\<close>

text \<open>
  The states the package can be in between two operations, from process start: after any
  number of registrations, stops and signal deliveries that returned.
\<close>

inductive reachable :: "'w state \<Rightarrow> bool" where
  r_init: "reachable (init w)"
| r_register: "reachable st \<Longrightarrow> register h sl st = Inr st' \<Longrightarrow> reachable st'"
| r_Stop: "reachable st \<Longrightarrow> Stop st = Inr st' \<Longrightarrow> reachable st'"
| r_deliver: "reachable st \<Longrightarrow> deliver s st = Inr st' \<Longrightarrow> reachable st'"

section \<open>Sequences of calls\<close>

text \<open>
  What a client does with the package, one operation after the other, signal deliveries
  included; the first panic or blocked call ends the run.
\<close>

datatype 'w call = Register "'w handler" "signal list" | StopCall | Deliver signal

fun run :: "'w call list \<Rightarrow> 'w state \<Rightarrow> fault + 'w state" where
  "run [] st = Inr st"
| "run (Register h sl # cs) st =
     (case register h sl st of Inl e \<Rightarrow> Inl e | Inr st' \<Rightarrow> run cs st')"
| "run (StopCall # cs) st =
     (case Stop st of Inl e \<Rightarrow> Inl e | Inr st' \<Rightarrow> run cs st')"
| "run (Deliver s # cs) st =
     (case deliver s st of Inl e \<Rightarrow> Inl e | Inr st' \<Rightarrow> run cs st')"

section \<open>Goroutines\<close>

text \<open>
  The functions above run each operation on its own. Here the three functions of the
  source are cut into their statements, so that goroutines interleave. A goroutine is at a
  program point, named after the source line of the statement it will execute next:
  \<^item> \<open>S42\<close> to \<open>S46\<close>: \<^verbatim>\<open>Stop\<close>, one statement each; at \<open>S45\<close> the operand of
    \<^verbatim>\<open><-down\<close> is evaluated, at \<open>S45w\<close> the goroutine waits on that channel;
  \<^item> \<open>R67\<close>: \<^verbatim>\<open>utx.Lock()\<close> of \<^verbatim>\<open>register\<close>; \<open>R72\<close>: the first \<^verbatim>\<open>if !on\<close>
    with its block (lines 72 to 77); \<open>R79\<close>: one round of the loop over the signals still
    to do (lines 79 to 89); \<open>R91\<close>, \<open>R92\<close>, \<open>R93\<close>: the second \<^verbatim>\<open>if !on\<close>,
    \<^verbatim>\<open>go handleSignals()\<close> and \<^verbatim>\<open>on = true\<close>; \<open>R68\<close>: the deferred
    \<^verbatim>\<open>utx.Unlock()\<close>;
  \<^item> \<open>L132\<close>: \<^verbatim>\<open>handleSignals\<close> enters the \<^verbatim>\<open>select\<close> and evaluates the channel
    operands \<^verbatim>\<open>done\<close> and \<^verbatim>\<open>nch\<close>; \<open>L133\<close>: it waits on them; \<open>L135\<close>:
    \<^verbatim>\<open>close(down)\<close> and \<^verbatim>\<open>return\<close>; \<open>L147\<close>: \<^verbatim>\<open>utx.Lock()\<close> for the signal
    received; \<open>L150\<close>: the \<^verbatim>\<open>range\<close> expression \<^verbatim>\<open>handlers[s]\<close> is evaluated;
    \<open>L152\<close>: the next handler of the chain is called; \<open>L148\<close>: the deferred
    \<^verbatim>\<open>utx.Unlock()\<close>;
  \<^item> \<open>Ret\<close>: the function has returned.
\<close>

datatype 'w pc =
    S42 | S43 | S44 | S45 | S45w "chan option" | S46
  | R67 "'w handler" "signal list" | R72 "'w handler" "signal list"
  | R79 "'w handler" "signal list" | R91 | R92 | R93 | R68
  | L132 | L133 "chan option" "chan option" | L135
  | L147 signal | L150 signal | L152 signal "'w handler list" | L148
  | Ret

text \<open>
  A configuration: the package state, the goroutine holding \<^verbatim>\<open>utx\<close> (an index into
  \<open>goroutines\<close>), the goroutines, whether a panic has ended the process, and the signals
  raised by the operating system that no goroutine received.
\<close>

record 'w config =
  shared :: "'w state"
  utx :: "nat option"
  goroutines :: "'w pc list"
  crashed :: bool
  dropped :: "signal list"

text \<open>
  The goroutines \<open>callers\<close> are about to run beside the dispatch goroutines of the state
  \<open>st\<close>, none of which is inside a dispatch.
\<close>

definition quiescent :: "'w state \<Rightarrow> 'w pc list \<Rightarrow> 'w config" where
  "quiescent st callers =
     \<lparr>shared = st, utx = None, goroutines = callers @ replicate (loops st) L132,
      crashed = False, dropped = []\<rparr>"

definition goto :: "nat \<Rightarrow> 'w pc \<Rightarrow> 'w config \<Rightarrow> 'w config" where
  "goto i p c = c\<lparr>goroutines := (goroutines c)[i := p]\<rparr>"

definition panic :: "'w config \<Rightarrow> 'w config" where
  "panic c = c\<lparr>crashed := True\<rparr>"

text \<open>
  Goroutine \<open>i\<close> executes the statement at its program point; \<open>None\<close> when that
  statement cannot proceed (a lock that is held, a receive with nothing to receive). An
  unrecovered panic ends the process. At \<open>L133\<close> this is the case \<^verbatim>\<open><-done\<close> of the
  \<^verbatim>\<open>select\<close>; the other case is \<open>receive\<close> below.
\<close>

fun stmt :: "nat \<Rightarrow> 'w pc \<Rightarrow> 'w config \<Rightarrow> 'w config option" where
  "stmt i S42 c = Some (goto i (if on (shared c) then S43 else Ret) c)"
| "stmt i S43 c = Some (goto i S44 (c\<lparr>shared := signal_Stop (nch (shared c)) (shared c)\<rparr>))"
| "stmt i S44 c =
     Some (case close_chan (done_ch (shared c)) (shared c) of
             Inl e \<Rightarrow> panic c
           | Inr sh \<Rightarrow> goto i S45 (c\<lparr>shared := sh\<rparr>))"
| "stmt i S45 c = Some (goto i (S45w (down (shared c))) c)"
| "stmt i (S45w d) c =
     (case recv_closed d (shared c) of
        Inl e \<Rightarrow> None
      | Inr sh \<Rightarrow> Some (goto i S46 c))"
| "stmt i S46 c = Some (goto i Ret (c\<lparr>shared := (shared c)\<lparr>on := False\<rparr>\<rparr>))"
| "stmt i (R67 h sl) c =
     (if utx c = None then Some (goto i (R72 h sl) (c\<lparr>utx := Some i\<rparr>)) else None)"
| "stmt i (R72 h sl) c =
     Some (goto i (R79 h sl)
       (c\<lparr>shared := (if \<not> on (shared c) then make_all (shared c) else shared c)\<rparr>))"
| "stmt i (R79 h []) c = Some (goto i R91 c)"
| "stmt i (R79 h (s # sl)) c =
     Some (case register_sig h s (shared c) of
             Inl e \<Rightarrow> panic c
           | Inr sh \<Rightarrow> goto i (R79 h sl) (c\<lparr>shared := sh\<rparr>))"
| "stmt i R91 c = Some (goto i (if \<not> on (shared c) then R92 else R68) c)"
| "stmt i R92 c =
     Some (goto i R93
       (c\<lparr>goroutines := goroutines c @ [L132],
          shared := (shared c)\<lparr>loops := loops (shared c) + 1\<rparr>\<rparr>))"
| "stmt i R93 c = Some (goto i R68 (c\<lparr>shared := (shared c)\<lparr>on := True\<rparr>\<rparr>))"
| "stmt i R68 c = Some (goto i Ret (c\<lparr>utx := None\<rparr>))"
| "stmt i L132 c = Some (goto i (L133 (done_ch (shared c)) (nch (shared c))) c)"
| "stmt i (L133 d n) c =
     (case d of None \<Rightarrow> None
      | Some dc \<Rightarrow> if dc \<in> closed (shared c) then Some (goto i L135 c) else None)"
| "stmt i L135 c =
     Some (case close_chan (down (shared c)) (shared c) of
             Inl e \<Rightarrow> panic c
           | Inr sh \<Rightarrow> goto i Ret (c\<lparr>shared := sh\<lparr>loops := loops sh - 1\<rparr>\<rparr>))"
| "stmt i (L147 s) c =
     (if utx c = None then Some (goto i (L150 s) (c\<lparr>utx := Some i\<rparr>)) else None)"
| "stmt i (L150 s) c = Some (goto i (L152 s (chain_of (shared c) s)) c)"
| "stmt i (L152 s []) c = Some (goto i L148 c)"
| "stmt i (L152 s (h # hs)) c =
     (let r = hdlr h s (world (shared c)) in
      Some (goto i (if fst r then L152 s hs else L148)
        (c\<lparr>shared := (shared c)\<lparr>world := snd r,
                                 calls := calls (shared c) @ [(h, s, fst r)]\<rparr>\<rparr>)))"
| "stmt i L148 c = Some (goto i L132 (c\<lparr>utx := None\<rparr>))"
| "stmt i Ret c = None"

text \<open>
  The case \<^verbatim>\<open>s := <-nch\<close> of the \<^verbatim>\<open>select\<close>: the operating system raises \<open>s\<close>,
  \<^verbatim>\<open>os/signal\<close> relays it to the channel the goroutine waits on, and the goroutine was
  not already woken by a closed \<^verbatim>\<open>done\<close>.
\<close>

fun receive :: "nat \<Rightarrow> signal \<Rightarrow> 'w pc \<Rightarrow> 'w config \<Rightarrow> 'w config option" where
  "receive i s (L133 d (Some nc)) c =
     (if (nc, s) \<in> notified (shared c) \<and>
         (case d of None \<Rightarrow> True | Some dc \<Rightarrow> dc \<notin> closed (shared c))
      then Some (goto i (L147 s) c) else None)"
| "receive i s p c = None"

text \<open>
  One step of the whole program: a goroutine executes a statement, a goroutine receives a
  signal, or a signal is raised that no goroutine receives (\<^verbatim>\<open>os/signal\<close> does not
  block on a channel without a waiting receiver, and relays nothing after
  \<^verbatim>\<open>signal.Stop\<close>). A schedule is a list of such steps.
\<close>

datatype act = Run nat | Receive nat signal | Drop signal

definition act_step :: "act \<Rightarrow> 'w config \<Rightarrow> 'w config option" where
  "act_step a c =
     (if crashed c then None
      else case a of
        Run i \<Rightarrow> if i < length (goroutines c) then stmt i (goroutines c ! i) c else None
      | Receive i s \<Rightarrow>
          if i < length (goroutines c) then receive i s (goroutines c ! i) c else None
      | Drop s \<Rightarrow>
          if \<forall>i < length (goroutines c). receive i s (goroutines c ! i) c = None
          then Some (c\<lparr>dropped := dropped c @ [s]\<rparr>) else None)"

fun exec :: "act list \<Rightarrow> 'w config \<Rightarrow> 'w config option" where
  "exec [] c = Some c"
| "exec (a # as) c = (case act_step a c of None \<Rightarrow> None | Some c' \<Rightarrow> exec as c')"

section \<open>Notions used in the statements\<close>

text \<open>What the merge in \<open>register_sig\<close> makes of a chain.\<close>

definition merged :: "'w handler \<Rightarrow> 'w handler list \<Rightarrow> 'w handler list" where
  "merged h c = (if c \<noteq> [] \<and> soft (last c) then butlast c @ [h] else c @ [h])"

text \<open>Invariant 2 of the data model: no entry before the last one is soft.\<close>

definition only_last_soft :: "'w handler list \<Rightarrow> bool" where
  "only_last_soft c = (\<forall>e \<in> set (butlast c). \<not> soft e)"

text \<open>
  What holds of the runtime state between two operations: an active package has its map and
  its three channels, \<^verbatim>\<open>done\<close> and \<^verbatim>\<open>down\<close> open and distinct, and one dispatch
  goroutine; an inactive one has none; every channel mentioned anywhere has been allocated.
\<close>

definition consistent :: "'w state \<Rightarrow> bool" where
  "consistent st \<longleftrightarrow>
     (on st \<longrightarrow> handlers st \<noteq> None \<and>
        (\<exists>n d e. nch st = Some n \<and> done_ch st = Some d \<and> down st = Some e \<and>
           d \<noteq> e \<and> d \<notin> closed st \<and> e \<notin> closed st) \<and> loops st = 1) \<and>
     (\<not> on st \<longrightarrow> loops st = 0) \<and>
     (\<forall>c. nch st = Some c \<longrightarrow> c < nalloc st) \<and>
     (\<forall>c. done_ch st = Some c \<longrightarrow> c < nalloc st) \<and>
     (\<forall>c. down st = Some c \<longrightarrow> c < nalloc st) \<and>
     (\<forall>c \<in> closed st. c < nalloc st) \<and>
     (\<forall>p \<in> set (notify_calls st). fst p < nalloc st) \<and>
     (\<forall>p \<in> notified st. fst p < nalloc st)"

text \<open>
  The subscriptions of the current activation: \<^verbatim>\<open>signal.Notify\<close> has been called once
  with \<^verbatim>\<open>nch\<close> for each key of the map and never for another signal, the keys are the
  signals relayed to \<^verbatim>\<open>nch\<close>, and no chain is empty.
\<close>

definition subscribed_once :: "'w state \<Rightarrow> bool" where
  "subscribed_once st \<longleftrightarrow>
     (\<exists>m n. handlers st = Some m \<and> nch st = Some n \<and>
        (\<forall>s. count_list (notify_calls st) (n, s) = (if m s = None then 0 else 1)) \<and>
        (\<forall>s. ((n, s) \<in> notified st) = (m s \<noteq> None)) \<and>
        (\<forall>s. m s \<noteq> Some []))"

text \<open>
  The specification's reading of a dispatch: it names the invocations of a whole chain,
  each handler run on the state its predecessor left, and cuts that list after the first
  invocation that returned false.
\<close>

fun invoke_all ::
  "'w handler list \<Rightarrow> signal \<Rightarrow> 'w \<Rightarrow> ('w handler \<times> signal \<times> bool) list" where
  "invoke_all [] s w = []"
| "invoke_all (h # hs) s w =
     (let r = hdlr h s w in (h, s, fst r) # invoke_all hs s (snd r))"

definition returned_true :: "'w handler \<times> signal \<times> bool \<Rightarrow> bool" where
  "returned_true x = snd (snd x)"

definition up_to_first_false ::
  "('w handler \<times> signal \<times> bool) list \<Rightarrow> ('w handler \<times> signal \<times> bool) list" where
  "up_to_first_false t = take (Suc (length (takeWhile returned_true t))) t"

text \<open>
  What holds while one goroutine runs \<^verbatim>\<open>Stop\<close> (goroutine 0) beside the dispatch
  goroutine (goroutine 1), for the channels \<open>d\<close> = \<^verbatim>\<open>done\<close> and \<open>e\<close> = \<^verbatim>\<open>down\<close>:
  \<^verbatim>\<open>down\<close> is closed exactly when the dispatch goroutine has returned, and \<^verbatim>\<open>Stop\<close> is
  past its receive only when \<^verbatim>\<open>down\<close> is closed.
\<close>

fun stop_at :: "chan \<Rightarrow> chan \<Rightarrow> 'w state \<Rightarrow> 'w pc \<Rightarrow> bool" where
  "stop_at d e sh S42 = (on sh \<and> d \<notin> closed sh)"
| "stop_at d e sh S43 = (d \<notin> closed sh)"
| "stop_at d e sh S44 = (d \<notin> closed sh)"
| "stop_at d e sh S45 = (d \<in> closed sh)"
| "stop_at d e sh (S45w d') = (d' = Some e \<and> d \<in> closed sh)"
| "stop_at d e sh S46 = (d \<in> closed sh \<and> e \<in> closed sh)"
| "stop_at d e sh Ret = (d \<in> closed sh \<and> e \<in> closed sh \<and> \<not> on sh)"
| "stop_at d e sh p = False"

fun loop_at :: "chan \<Rightarrow> chan \<Rightarrow> 'w state \<Rightarrow> nat option \<Rightarrow> 'w pc \<Rightarrow> bool" where
  "loop_at d e sh u L132 = (e \<notin> closed sh \<and> u = None)"
| "loop_at d e sh u (L133 d' n') = (d' = Some d \<and> e \<notin> closed sh \<and> u = None)"
| "loop_at d e sh u L135 = (e \<notin> closed sh \<and> u = None)"
| "loop_at d e sh u (L147 s) = (e \<notin> closed sh \<and> u = None)"
| "loop_at d e sh u (L150 s) = (e \<notin> closed sh)"
| "loop_at d e sh u (L152 s hs) = (e \<notin> closed sh)"
| "loop_at d e sh u L148 = (e \<notin> closed sh)"
| "loop_at d e sh u Ret = (e \<in> closed sh \<and> u = None)"
| "loop_at d e sh u p = False"

definition stop_inv :: "chan \<Rightarrow> chan \<Rightarrow> 'w config \<Rightarrow> bool" where
  "stop_inv d e c \<longleftrightarrow>
     d \<noteq> e \<and> \<not> crashed c \<and> done_ch (shared c) = Some d \<and> down (shared c) = Some e \<and>
     (\<exists>p q. goroutines c = [p, q] \<and> stop_at d e (shared c) p \<and>
        loop_at d e (shared c) (utx c) q)"

text \<open>
  How far the two goroutines are from their \<^verbatim>\<open>return\<close> when no further signal is
  received: the statements \<^verbatim>\<open>Stop\<close> has left, and the statements the dispatch goroutine
  has left, the handlers of the chain it is walking counted one each.
\<close>

fun stop_rank :: "'w pc \<Rightarrow> nat" where
  "stop_rank S42 = 6"
| "stop_rank S43 = 5"
| "stop_rank S44 = 4"
| "stop_rank S45 = 3"
| "stop_rank (S45w d) = 2"
| "stop_rank S46 = 1"
| "stop_rank p = 0"

fun loop_rank :: "'w state \<Rightarrow> 'w pc \<Rightarrow> nat" where
  "loop_rank sh (L147 s) = 7 + length (chain_of sh s)"
| "loop_rank sh (L150 s) = 6 + length (chain_of sh s)"
| "loop_rank sh (L152 s hs) = 5 + length hs"
| "loop_rank sh L148 = 4"
| "loop_rank sh L132 = 3"
| "loop_rank sh (L133 d n) = 2"
| "loop_rank sh L135 = 1"
| "loop_rank sh p = 0"

definition rank :: "'w config \<Rightarrow> nat" where
  "rank c = stop_rank (goroutines c ! 0) + loop_rank (shared c) (goroutines c ! 1)"

section \<open>Examples\<close>

text \<open>
  Three handlers that write their name to a log: \<open>A\<close> and \<open>C\<close> return true, \<open>B\<close> returns
  false; \<open>hC\<close> is registered soft.
\<close>

definition SIGUSR1 :: signal where "SIGUSR1 = 10"

definition SIGUSR2 :: signal where "SIGUSR2 = 12"

definition hdlrA :: "string list Handler" where "hdlrA s w = (True, w @ [''A''])"

definition hdlrB :: "string list Handler" where "hdlrB s w = (False, w @ [''B''])"

definition hdlrC :: "string list Handler" where "hdlrC s w = (True, w @ [''C''])"

definition hA :: "string list handler" where
  "hA = \<lparr>hdlr = hdlrA, soft = False, info = ''A''\<rparr>"

definition hB :: "string list handler" where
  "hB = \<lparr>hdlr = hdlrB, soft = False, info = ''B''\<rparr>"

definition hC :: "string list handler" where
  "hC = \<lparr>hdlr = hdlrC, soft = True, info = ''C''\<rparr>"

definition FuncID_ex :: "string list Handler \<Rightarrow> string" where
  "FuncID_ex h = ''main.handler''"

text \<open>
  \<open>ex_ABC\<close>: after registering \<open>hA\<close>, \<open>hB\<close>, \<open>hC\<close> for \<^verbatim>\<open>SIGUSR1\<close> at process start;
  \<open>ex_stopped\<close>: after \<^verbatim>\<open>Stop\<close> in \<open>ex_ABC\<close>; \<open>ex_fresh\<close>: after registering \<open>hA\<close> for
  \<^verbatim>\<open>SIGUSR2\<close> in \<open>ex_stopped\<close>; \<open>ex_empty\<close>: after a registration with no signal at
  process start.
\<close>

definition ex_ABC :: "string list state" where
  "ex_ABC = \<lparr>on = True, handlers = Some [SIGUSR1 \<mapsto> [hA, hB, hC]],
     nch = Some 2, done_ch = Some 0, down = Some 1,
     nalloc = 3, closed = {}, notified = {(2, SIGUSR1)}, loops = 1, world = [],
     notify_calls = [(2, SIGUSR1)], calls = []\<rparr>"

definition ex_stopped :: "string list state" where
  "ex_stopped = \<lparr>on = False, handlers = Some [SIGUSR1 \<mapsto> [hA, hB, hC]],
     nch = Some 2, done_ch = Some 0, down = Some 1,
     nalloc = 3, closed = {0, 1}, notified = {}, loops = 0, world = [],
     notify_calls = [(2, SIGUSR1)], calls = []\<rparr>"

definition ex_fresh :: "string list state" where
  "ex_fresh = \<lparr>on = True, handlers = Some [SIGUSR2 \<mapsto> [hA]],
     nch = Some 5, done_ch = Some 3, down = Some 4,
     nalloc = 6, closed = {0, 1}, notified = {(5, SIGUSR2)}, loops = 1, world = [],
     notify_calls = [(2, SIGUSR1), (5, SIGUSR2)], calls = []\<rparr>"

definition ex_empty :: "string list state" where
  "ex_empty = \<lparr>on = True, handlers = Some Map.empty,
     nch = Some 2, done_ch = Some 0, down = Some 1,
     nalloc = 3, closed = {}, notified = {}, loops = 1, world = [],
     notify_calls = [], calls = []\<rparr>"

text \<open>
  \<open>ex_schedule\<close>: \<^verbatim>\<open>Stop\<close> beside the dispatch goroutine in \<open>ex_ABC\<close>, with one
  \<^verbatim>\<open>SIGUSR1\<close> received before \<^verbatim>\<open>signal.Stop\<close> and one raised after it.
\<close>

definition ex_schedule :: "act list" where
  "ex_schedule =
     [Run 1, Receive 1 SIGUSR1, Run 0, Run 0, Run 1, Run 0, Run 0, Drop SIGUSR1,
      Run 1, Run 1, Run 1, Run 1, Run 1, Run 1, Run 1, Run 0, Run 0]"

definition ex_returned :: "string list config" where
  "ex_returned =
     \<lparr>shared = ex_stopped\<lparr>world := [''A'', ''B''],
                           calls := [(hA, SIGUSR1, True), (hB, SIGUSR1, False)]\<rparr>,
      utx = None, goroutines = [Ret, Ret], crashed = False, dropped = [SIGUSR1]\<rparr>"

text \<open>
  \<open>ex_waiting\<close>: \<^verbatim>\<open>Stop\<close> has run lines 42 to 44 in \<open>ex_ABC\<close> and read \<^verbatim>\<open>down\<close> at
  line 45, while the dispatch goroutine has not run yet.
\<close>

definition ex_waiting :: "string list config" where
  "ex_waiting =
     \<lparr>shared = ex_ABC\<lparr>closed := {0}, notified := {}\<rparr>, utx = None,
      goroutines = [S45w (Some 1), L132], crashed = False, dropped = []\<rparr>"

text \<open>
  \<open>ex_race\<close>: goroutine 1 registers \<open>hA\<close> for \<^verbatim>\<open>SIGUSR2\<close> in \<open>ex_ABC\<close>; after it has
  passed line 72, goroutine 0 runs \<^verbatim>\<open>Stop\<close> from beginning to end; goroutine 1 then
  reaches line 91.
\<close>

definition ex_race :: "act list" where
  "ex_race =
     [Run 2, Run 1, Run 1,
      Run 0, Run 0, Run 0, Run 0, Run 2, Run 2, Run 0, Run 0,
      Run 1, Run 1, Run 1, Run 1, Run 1, Run 1,
      Run 3, Run 3, Run 3]"

definition ex_race_start :: "string list config" where
  "ex_race_start = quiescent ex_ABC [S42, R67 hA [SIGUSR2]]"

definition ex_locked :: "string list config" where
  "ex_locked =
     \<lparr>shared = ex_ABC, utx = Some 1,
      goroutines = [S42, R79 hA [SIGUSR2], L133 (Some 0) (Some 2)],
      crashed = False, dropped = []\<rparr>"

definition ex_crashed :: "string list config" where
  "ex_crashed =
     \<lparr>shared = \<lparr>on = True, handlers = Some [SIGUSR1 \<mapsto> [hA, hB, hC], SIGUSR2 \<mapsto> [hA]],
        nch = Some 2, done_ch = Some 0, down = Some 1,
        nalloc = 3, closed = {0, 1}, notified = {(2, SIGUSR2)}, loops = 1, world = [],
        notify_calls = [(2, SIGUSR1), (2, SIGUSR2)], calls = []\<rparr>,
      utx = None, goroutines = [Ret, Ret, Ret, L135], crashed = True, dropped = []\<rparr>"

lemmas ex_defs = SIGUSR1_def SIGUSR2_def hA_def hB_def hC_def hdlrA_def hdlrB_def hdlrC_def

lemmas model_defs = register_def register_sig_def make_all_def signal_Notify_def assign_def
  chain_of_def has_key_def init_def Stop_def signal_Stop_def close_chan_def recv_closed_def
  deliver_def dispatch_def Let_def

lemmas conc_defs = act_step_def goto_def panic_def quiescent_def

section \<open>Registration: the merge\<close>

lemma register_sig_eq:
  assumes "handlers st = Some m" and "nch st = Some n"
  shows "register_sig h s st =
     Inr (st\<lparr>handlers := Some (m(s \<mapsto> merged h (chain_of st s))),
             notified := (if m s = None then insert (n, s) (notified st) else notified st),
             notify_calls := notify_calls st @ (if m s = None then [(n, s)] else [])\<rparr>)"
  using assms
  by (auto simp: register_sig_def signal_Notify_def assign_def chain_of_def has_key_def Let_def
      merged_def last_conv_nth butlast_conv_take upd_conv_take_nth_drop
      split: option.splits)


lemma merged_not_Nil [simp]: "merged h c \<noteq> []"
  by (simp add: merged_def)



section \<open>Registration: soft entries stay last\<close>

lemma only_last_soft_merged: "only_last_soft c \<Longrightarrow> only_last_soft (merged h c)"
  by (cases c rule: rev_cases) (auto simp: only_last_soft_def merged_def butlast_append)

lemma only_last_soft_Nil [simp]: "only_last_soft []"
  by (simp add: only_last_soft_def)

lemma chain_of_make_all [simp]: "chain_of (make_all st) s = []"
  by (simp add: make_all_def chain_of_def)

lemma chain_of_on_loops [simp]: "chain_of (st\<lparr>loops := k, on := b\<rparr>) s = chain_of st s"
  by (simp add: chain_of_def)

lemma register_loop_frame:
  assumes "handlers st = Some m" and "nch st = Some n"
  shows "\<exists>st' m'. register_loop h sl st = Inr st' \<and> handlers st' = Some m' \<and>
           on st' = on st \<and> nch st' = nch st \<and> done_ch st' = done_ch st \<and>
           down st' = down st \<and> nalloc st' = nalloc st \<and> closed st' = closed st \<and>
           loops st' = loops st \<and> world st' = world st \<and> calls st' = calls st"
  using assms
proof (induction sl arbitrary: st m)
  case Nil
  then show ?case by simp
next
  case (Cons s sl)
  let ?st1 = "st\<lparr>handlers := Some (m(s \<mapsto> merged h (chain_of st s))),
             notified := (if m s = None then insert (n, s) (notified st) else notified st),
             notify_calls := notify_calls st @ (if m s = None then [(n, s)] else [])\<rparr>"
  have r: "register_sig h s st = Inr ?st1"
    using Cons.prems by (rule register_sig_eq)
  have "handlers ?st1 = Some (m(s \<mapsto> merged h (chain_of st s)))" and "nch ?st1 = Some n"
    using Cons.prems by simp_all
  from Cons.IH [OF this] r show ?case by simp
qed

lemma register_loop_soft:
  assumes "handlers st = Some m" and "nch st = Some n"
    and "\<forall>s. only_last_soft (chain_of st s)"
    and "register_loop h sl st = Inr st'"
  shows "\<forall>s. only_last_soft (chain_of st' s)"
  using assms
proof (induction sl arbitrary: st m)
  case Nil
  then show ?case by simp
next
  case (Cons s sl)
  let ?st1 = "st\<lparr>handlers := Some (m(s \<mapsto> merged h (chain_of st s))),
             notified := (if m s = None then insert (n, s) (notified st) else notified st),
             notify_calls := notify_calls st @ (if m s = None then [(n, s)] else [])\<rparr>"
  have r: "register_sig h s st = Inr ?st1"
    using Cons.prems(1,2) by (rule register_sig_eq)
  have a: "handlers ?st1 = Some (m(s \<mapsto> merged h (chain_of st s)))" and b: "nch ?st1 = Some n"
    using Cons.prems by simp_all
  have c: "\<forall>s'. only_last_soft (chain_of ?st1 s')"
  proof
    fix s'
    show "only_last_soft (chain_of ?st1 s')"
    proof (cases "s' = s")
      case True
      then show ?thesis
        using Cons.prems(3) by (simp add: chain_of_def only_last_soft_merged)
    next
      case False
      then have "chain_of ?st1 s' = chain_of st s'"
        using Cons.prems(1) by (simp add: chain_of_def)
      then show ?thesis using Cons.prems(3) by simp
    qed
  qed
  from Cons.prems(4) r have "register_loop h sl ?st1 = Inr st'" by simp
  from Cons.IH [OF a b c this] show ?case .
qed

lemma register_soft_last_total:
  assumes "\<forall>s. only_last_soft (chain_of st s)"
    and "on st \<longrightarrow> handlers st \<noteq> None \<and> nch st \<noteq> None"
  shows "\<exists>st'. register h sl st = Inr st' \<and> (\<forall>s. only_last_soft (chain_of st' s))"
proof -
  let ?st1 = "if \<not> on st then make_all st else st"
  obtain m n where m: "handlers ?st1 = Some m" and n: "nch ?st1 = Some n"
    using assms(2) by (cases "on st") (auto simp: make_all_def)
  have inv1: "\<forall>s. only_last_soft (chain_of ?st1 s)"
    using assms(1) by simp
  from register_loop_frame [OF m n, of h sl] obtain st2 where
    l: "register_loop h sl ?st1 = Inr st2" by blast
  from register_loop_soft [OF m n inv1 l] have "\<forall>s. only_last_soft (chain_of st2 s)" .
  with l show ?thesis
    by (simp add: register_def)
qed

text \<open>
  Claim C7. Every registration keeps invariant 2: when in every chain only the last entry
  may be soft, \<^verbatim>\<open>register\<close> returns (on an active package it needs the map and
  \<^verbatim>\<open>nch\<close>, which an active package has) and in every chain of the new state only the
  last entry may be soft. So a soft entry is the last one of its chain and the only soft one.
\<close>

theorem register_keeps_soft_last:
  assumes "\<forall>s. only_last_soft (chain_of st s)"
    and "on st \<longrightarrow> handlers st \<noteq> None \<and> nch st \<noteq> None"
  shows "\<exists>st'. register h sl st = Inr st' \<and> (\<forall>s. only_last_soft (chain_of st' s))"
  using assms by (rule register_soft_last_total)

theorem register_keeps_soft_last_witness:
  "(\<forall>s. only_last_soft (chain_of ex_ABC s)) \<and>
   on ex_ABC \<and> handlers ex_ABC \<noteq> None \<and> nch ex_ABC \<noteq> None \<and>
   (\<exists>st'. register hC [SIGUSR1, SIGUSR2] ex_ABC = Inr st' \<and>
      (\<forall>s. only_last_soft (chain_of st' s)))"
proof -
  have a: "\<forall>s. only_last_soft (chain_of ex_ABC s)"
    by (simp add: ex_ABC_def chain_of_def only_last_soft_def hA_def hB_def)
  have b: "on ex_ABC" "handlers ex_ABC \<noteq> None" "nch ex_ABC \<noteq> None"
    by (simp_all add: ex_ABC_def)
  then have "on ex_ABC \<longrightarrow> handlers ex_ABC \<noteq> None \<and> nch ex_ABC \<noteq> None"
    by simp
  from register_keeps_soft_last [OF a this, of hC "[SIGUSR1, SIGUSR2]"]
  have "\<exists>st'. register hC [SIGUSR1, SIGUSR2] ex_ABC = Inr st' \<and>
      (\<forall>s. only_last_soft (chain_of st' s))" .
  with a b show ?thesis by simp
qed

section \<open>Registration with no signal\<close>

lemma register_Nil:
  "register h [] st =
     Inr (if on st then st else (make_all st)\<lparr>loops := loops st + 1, on := True\<rparr>)"
  by (simp add: register_def make_all_def)

text \<open>
  Claim C4, as the specification states it, fails: at process start a registration with an
  empty signal list is not a no-op. It makes the map and the three channels, starts the
  dispatch goroutine and sets \<^verbatim>\<open>on\<close>.
\<close>

theorem empty_list_activates:
  "RegisterHandler FuncID_ex hdlrA [] (init []) = Inr ex_empty \<and>
   RegisterSoftHandler FuncID_ex hdlrA [] (init []) = Inr ex_empty \<and>
   RegisterHandler FuncID_ex hdlrA [] (init []) \<noteq> Inr (init []) \<and>
   \<not> on (init ([] :: string list)) \<and> on ex_empty \<and>
   loops (init ([] :: string list)) = 0 \<and> loops ex_empty = 1 \<and>
   nalloc (init ([] :: string list)) = 0 \<and> nalloc ex_empty = 3"
  by (simp add: RegisterHandler_def RegisterSoftHandler_def ex_empty_def model_defs)

text \<open>
  Claim C4, amended. \<^verbatim>\<open>RegisterHandler\<close> and \<^verbatim>\<open>RegisterSoftHandler\<close> with an empty signal
  list create no chain and subscribe to nothing. On an active package they change nothing.
  On an inactive package they activate it: the lines under the two \<^verbatim>\<open>if !on\<close> run, so the
  map is replaced by an empty one, new channels are made, the dispatch goroutine is started
  and \<^verbatim>\<open>on\<close> becomes true.
\<close>

theorem empty_list_registration:
  "\<exists>st'. RegisterHandler FuncID f [] st = Inr st' \<and>
         RegisterSoftHandler FuncID f [] st = Inr st' \<and>
         notify_calls st' = notify_calls st \<and> notified st' = notified st \<and>
         (on st \<longrightarrow> st' = st) \<and>
         (\<not> on st \<longrightarrow> st' = (make_all st)\<lparr>loops := loops st + 1, on := True\<rparr> \<and>
            (\<forall>s. \<not> has_key st' s))"
  by (simp add: RegisterHandler_def RegisterSoftHandler_def register_Nil make_all_def has_key_def)

theorem empty_list_registration_witness:
  "on ex_ABC \<and> RegisterHandler FuncID_ex hdlrA [] ex_ABC = Inr ex_ABC \<and>
   RegisterSoftHandler FuncID_ex hdlrA [] ex_ABC = Inr ex_ABC \<and>
   \<not> on ex_stopped \<and>
   RegisterHandler FuncID_ex hdlrA [] ex_stopped =
     Inr ((make_all ex_stopped)\<lparr>loops := loops ex_stopped + 1, on := True\<rparr>) \<and>
   chain_of ((make_all ex_stopped)\<lparr>loops := loops ex_stopped + 1, on := True\<rparr>) SIGUSR1 = [] \<and>
   chain_of ex_stopped SIGUSR1 = [hA, hB, hC]"
proof -
  have a: "on ex_ABC" "\<not> on ex_stopped" "chain_of ex_stopped SIGUSR1 = [hA, hB, hC]"
    by (simp_all add: ex_ABC_def ex_stopped_def chain_of_def)
  from empty_list_registration [of FuncID_ex hdlrA ex_ABC]
    empty_list_registration [of FuncID_ex hdlrA ex_stopped] a
  show ?thesis by auto
qed

section \<open>Stop on an inactive package\<close>

lemma Stop_inactive: "\<not> on st \<Longrightarrow> Stop st = Inr st"
  by (simp add: Stop_def)

lemma Stop_off: "Stop st = Inr st' \<Longrightarrow> \<not> on st'"
  by (auto simp: Stop_def Let_def split: if_splits sum.splits)

text \<open>
  Claim C5. \<^verbatim>\<open>Stop\<close> on an inactive package returns at once and leaves the whole state as
  it was; and a \<^verbatim>\<open>Stop\<close> right after a \<^verbatim>\<open>Stop\<close> that returned is such a call.
\<close>

theorem Stop_inactive_is_noop:
  "(\<not> on st \<longrightarrow> Stop st = Inr st) \<and> (Stop st = Inr st' \<longrightarrow> Stop st' = Inr st')"
  using Stop_off [of st st'] by (simp add: Stop_inactive)

lemma ex_ABC_Stop: "Stop ex_ABC = Inr ex_stopped"
  by (simp add: ex_ABC_def ex_stopped_def model_defs) auto

theorem Stop_inactive_is_noop_witness:
  "\<not> on (init ([] :: string list)) \<and> Stop (init ([] :: string list)) = Inr (init []) \<and>
   Stop ex_ABC = Inr ex_stopped \<and> Stop ex_stopped = Inr ex_stopped"
  using Stop_inactive_is_noop [of "init ([] :: string list)" ex_stopped]
    Stop_inactive_is_noop [of ex_ABC ex_stopped] ex_ABC_Stop
  by (simp add: init_def)

section \<open>Invariants of the reachable states\<close>

lemma count_list_0: "x \<notin> set xs \<Longrightarrow> count_list xs x = 0"
  by (induction xs) auto

lemma register_sig_subscribed_once:
  assumes "subscribed_once st" and "register_sig h s st = Inr st'"
  shows "subscribed_once st'"
proof -
  from assms(1) obtain m n where m: "handlers st = Some m" and n: "nch st = Some n"
    and c: "\<forall>s. count_list (notify_calls st) (n, s) = (if m s = None then 0 else 1)"
    and f: "\<forall>s. ((n, s) \<in> notified st) = (m s \<noteq> None)"
    and e: "\<forall>s. m s \<noteq> Some []"
    unfolding subscribed_once_def by blast
  from register_sig_eq [OF m n, of h s] assms(2)
  have st': "st' = st\<lparr>handlers := Some (m(s \<mapsto> merged h (chain_of st s))),
             notified := (if m s = None then insert (n, s) (notified st) else notified st),
             notify_calls := notify_calls st @ (if m s = None then [(n, s)] else [])\<rparr>"
    by simp
  show ?thesis
    unfolding subscribed_once_def
    apply (rule exI [of _ "m(s \<mapsto> merged h (chain_of st s))"])
    apply (rule exI [of _ n])
    using c f e n by (auto simp: st')
qed

lemma register_loop_subscribed_once:
  assumes "subscribed_once st" and "register_loop h sl st = Inr st'"
  shows "subscribed_once st'"
  using assms
proof (induction sl arbitrary: st)
  case Nil
  then show ?case by simp
next
  case (Cons s sl)
  from Cons.prems(2) obtain st1 where r: "register_sig h s st = Inr st1"
    and l: "register_loop h sl st1 = Inr st'"
    by (auto split: sum.splits)
  from Cons.IH [OF register_sig_subscribed_once [OF Cons.prems(1) r] l] show ?case .
qed

lemma make_all_subscribed_once:
  assumes "consistent st"
  shows "subscribed_once (make_all st)"
proof -
  have "\<forall>s. (nalloc st + 2, s) \<notin> set (notify_calls st)"
    using assms by (fastforce simp: consistent_def)
  moreover have "\<forall>s. (nalloc st + 2, s) \<notin> notified st"
    using assms by (fastforce simp: consistent_def)
  ultimately show ?thesis
    by (simp add: subscribed_once_def make_all_def count_list_0)
qed

lemma register_loop_logs:
  assumes "handlers st = Some m" and "nch st = Some n" and "register_loop h sl st = Inr st'"
  shows "set (notify_calls st') \<subseteq> set (notify_calls st) \<union> {n} \<times> set sl \<and>
         notified st' \<subseteq> notified st \<union> {n} \<times> set sl"
  using assms
proof (induction sl arbitrary: st m)
  case Nil
  then show ?case by simp
next
  case (Cons s sl)
  let ?st1 = "st\<lparr>handlers := Some (m(s \<mapsto> merged h (chain_of st s))),
             notified := (if m s = None then insert (n, s) (notified st) else notified st),
             notify_calls := notify_calls st @ (if m s = None then [(n, s)] else [])\<rparr>"
  have r: "register_sig h s st = Inr ?st1"
    using Cons.prems(1,2) by (rule register_sig_eq)
  have a: "handlers ?st1 = Some (m(s \<mapsto> merged h (chain_of st s)))" and b: "nch ?st1 = Some n"
    using Cons.prems by simp_all
  from Cons.prems(3) r have "register_loop h sl ?st1 = Inr st'" by simp
  from Cons.IH [OF a b this] show ?case by (auto split: if_splits)
qed

lemma Stop_active_eq:
  assumes "consistent st" and "on st"
    and "nch st = Some n" and "done_ch st = Some d" and "down st = Some e"
  shows "Stop st = Inr (st\<lparr>on := False,
                          closed := insert e (insert d (closed st)),
                          notified := {p \<in> notified st. fst p \<noteq> n},
                          loops := 0\<rparr>)"
proof -
  from assms have de: "d \<noteq> e" "d \<notin> closed st" "e \<notin> closed st" and l: "loops st = 1"
    by (auto simp: consistent_def)
  then show ?thesis
    using assms(2-5)
    by (simp add: Stop_def signal_Stop_def close_chan_def recv_closed_def)
qed

lemma deliver_eq:
  "deliver s st =
     Inr (if (\<exists>n. nch st = Some n \<and> 0 < loops st \<and> (n, s) \<in> notified st)
          then dispatch s st else st)"
  by (auto simp: deliver_def split: option.splits)

lemma dispatch_fields [simp]:
  "on (dispatch s st) = on st" "handlers (dispatch s st) = handlers st"
  "nch (dispatch s st) = nch st" "done_ch (dispatch s st) = done_ch st"
  "down (dispatch s st) = down st" "nalloc (dispatch s st) = nalloc st"
  "closed (dispatch s st) = closed st" "notified (dispatch s st) = notified st"
  "loops (dispatch s st) = loops st" "notify_calls (dispatch s st) = notify_calls st"
  by (simp_all add: dispatch_def Let_def)

lemma consistent_dispatch: "consistent (dispatch s st) = consistent st"
  by (simp add: consistent_def)

lemma subscribed_once_dispatch: "subscribed_once (dispatch s st) = subscribed_once st"
  by (simp add: subscribed_once_def)

lemma consistent_init: "consistent (init w)"
  by (simp add: consistent_def init_def)

lemma consistent_Stop:
  assumes "consistent st" and "Stop st = Inr st'"
  shows "consistent st'"
proof (cases "on st")
  case False
  with assms show ?thesis by (simp add: Stop_inactive)
next
  case True
  with assms(1) obtain n d e where
    c: "nch st = Some n" "done_ch st = Some d" "down st = Some e"
    by (auto simp: consistent_def)
  from Stop_active_eq [OF assms(1) True c] assms c
  show ?thesis
    by (auto simp: consistent_def)
qed

lemma consistent_register:
  assumes "consistent st" and "on st \<longrightarrow> subscribed_once st"
    and "register h sl st = Inr st'"
  shows "consistent st' \<and> on st' \<and> subscribed_once st'"
proof -
  let ?st1 = "if \<not> on st then make_all st else st"
  obtain m n where m: "handlers ?st1 = Some m" and n: "nch ?st1 = Some n"
    using assms(1) by (cases "on st") (auto simp: make_all_def consistent_def)
  from register_loop_frame [OF m n, of h sl] obtain st2 m' where
    l: "register_loop h sl ?st1 = Inr st2" and fr: "handlers st2 = Some m'"
      "on st2 = on ?st1" "nch st2 = nch ?st1" "done_ch st2 = done_ch ?st1"
      "down st2 = down ?st1" "nalloc st2 = nalloc ?st1" "closed st2 = closed ?st1"
      "loops st2 = loops ?st1"
    by blast
  have so1: "subscribed_once ?st1"
    using assms(1,2) by (simp add: make_all_subscribed_once)
  have so2: "subscribed_once st2"
    using so1 l by (rule register_loop_subscribed_once)
  have lg: "set (notify_calls st2) \<subseteq> set (notify_calls ?st1) \<union> {n} \<times> set sl"
      "notified st2 \<subseteq> notified ?st1 \<union> {n} \<times> set sl"
    using register_loop_logs [OF m n l] by simp_all
  have st': "st' = (if \<not> on st2 then st2\<lparr>loops := loops st2 + 1, on := True\<rparr> else st2)"
    using assms(3) l by (simp add: register_def)
  show ?thesis
  proof (cases "on st")
    case True
    have f2: "nch st2 = nch st" "done_ch st2 = done_ch st" "down st2 = down st"
      "nalloc st2 = nalloc st" "closed st2 = closed st" "loops st2 = loops st" "on st2 = on st"
      using fr True by simp_all
    have n': "nch st = Some n" using n True by simp
    have old: "n < nalloc st"
      "\<forall>p \<in> set (notify_calls st). fst p < nalloc st"
      "\<forall>p \<in> notified st. fst p < nalloc st"
      using assms(1) n' by (simp_all add: consistent_def)
    have lg': "\<forall>p \<in> set (notify_calls st2). fst p < nalloc st"
      "\<forall>p \<in> notified st2. fst p < nalloc st"
      using lg old True by fastforce+
    have "consistent st2"
      using assms(1) lg' fr(1) unfolding consistent_def f2 by simp
    with True so2 fr st' show ?thesis by simp
  next
    case False
    have n3: "n = nalloc st + 2" using n False by (simp add: make_all_def)
    have f2: "nch st2 = Some (nalloc st + 2)" "done_ch st2 = Some (nalloc st)"
      "down st2 = Some (nalloc st + 1)" "nalloc st2 = nalloc st + 3"
      "closed st2 = closed st" "loops st2 = 0" "on st2 = False"
      using fr False assms(1) by (simp_all add: make_all_def consistent_def)
    have old: "\<forall>c \<in> closed st. c < nalloc st"
      "\<forall>p \<in> set (notify_calls st). fst p < nalloc st"
      "\<forall>p \<in> notified st. fst p < nalloc st"
      using assms(1) by (simp_all add: consistent_def)
    have lg': "\<forall>p \<in> set (notify_calls st2). fst p < nalloc st + 3"
      "\<forall>p \<in> notified st2. fst p < nalloc st + 3"
      using lg old False unfolding n3 by (fastforce simp: make_all_def)+
    have "nalloc st \<notin> closed st" "nalloc st + 1 \<notin> closed st"
      using old(1) by fastforce+
    moreover have "\<forall>c \<in> closed st. c < nalloc st + 3"
      using old(1) by fastforce
    ultimately have "consistent (st2\<lparr>loops := loops st2 + 1, on := True\<rparr>)"
      using f2 fr(1) lg' unfolding consistent_def by simp
    moreover have "subscribed_once (st2\<lparr>loops := loops st2 + 1, on := True\<rparr>)"
      using so2 by (simp add: subscribed_once_def)
    ultimately show ?thesis using f2(7) st' by simp
  qed
qed

lemma Stop_handlers:
  assumes "consistent st" and "Stop st = Inr st'"
  shows "handlers st' = handlers st"
proof (cases "on st")
  case False
  with assms show ?thesis by (simp add: Stop_inactive)
next
  case True
  with assms(1) obtain n d e where
    c: "nch st = Some n" "done_ch st = Some d" "down st = Some e"
    by (auto simp: consistent_def)
  from Stop_active_eq [OF assms(1) True c] assms(2) show ?thesis by auto
qed

lemma register_soft_last:
  assumes "consistent st" and "\<forall>s. only_last_soft (chain_of st s)"
    and "register h sl st = Inr st'"
  shows "\<forall>s. only_last_soft (chain_of st' s)"
proof -
  have "on st \<longrightarrow> handlers st \<noteq> None \<and> nch st \<noteq> None"
    using assms(1) by (auto simp: consistent_def)
  from register_soft_last_total [OF assms(2) this, of h sl] assms(3) show ?thesis by simp
qed

lemma reachable_invariants:
  assumes "reachable st"
  shows "consistent st \<and> (on st \<longrightarrow> subscribed_once st) \<and>
         (\<forall>s. only_last_soft (chain_of st s))"
  using assms
proof (induction rule: reachable.induct)
  case (r_init w)
  show ?case by (simp add: consistent_init) (simp add: init_def chain_of_def)
next
  case (r_register st h sl st')
  then show ?case
    using consistent_register [of st h sl st'] register_soft_last [of st h sl st'] by blast
next
  case (r_Stop st st')
  from r_Stop.IH have c: "consistent st" by simp
  have "consistent st'" "\<not> on st'" "handlers st' = handlers st"
    using c r_Stop.hyps(2) by (simp_all add: consistent_Stop Stop_off Stop_handlers)
  with r_Stop.IH show ?case by (simp add: chain_of_def)
next
  case (r_deliver st s st')
  then have "st' = dispatch s st \<or> st' = st"
    by (auto simp: deliver_eq split: if_splits)
  with r_deliver.IH show ?case
    by (auto simp: consistent_dispatch subscribed_once_dispatch chain_of_def)
qed

text \<open>From a reachable state, a registration and a stop always return.\<close>

lemma reachable_register_returns:
  assumes "reachable st"
  shows "\<exists>st'. register h sl st = Inr st'"
proof -
  from reachable_invariants [OF assms]
  have "\<forall>s. only_last_soft (chain_of st s)"
    and "on st \<longrightarrow> handlers st \<noteq> None \<and> nch st \<noteq> None"
    by (auto simp: consistent_def)
  from register_soft_last_total [OF this, of h sl] show ?thesis by blast
qed

lemma reachable_Stop_returns:
  assumes "reachable st"
  shows "\<exists>st'. Stop st = Inr st'"
proof (cases "on st")
  case False
  then show ?thesis by (simp add: Stop_inactive)
next
  case True
  from reachable_invariants [OF assms] have c: "consistent st" by simp
  with True obtain n d e where
    "nch st = Some n" "done_ch st = Some d" "down st = Some e"
    by (auto simp: consistent_def)
  from Stop_active_eq [OF c True this] show ?thesis by blast
qed

lemma reachable_run: "reachable st \<Longrightarrow> run cs st = Inr st' \<Longrightarrow> reachable st'"
proof (induction cs arbitrary: st)
  case Nil
  then show ?case by simp
next
  case (Cons c cs)
  then show ?case
    by (cases c) (auto split: sum.splits intro: reachable.intros)
qed

lemma ex_ABC_run:
  "run [Register hA [SIGUSR1], Register hB [SIGUSR1], Register hC [SIGUSR1]] (init []) = Inr ex_ABC"
  by (simp add: ex_ABC_def model_defs ex_defs)

lemma ex_ABC_reachable: "reachable ex_ABC"
  using reachable_run [OF r_init ex_ABC_run] .

text \<open>
  A whole call of \<^verbatim>\<open>register\<close> makes the merge once for each occurrence of a signal in
  its list, on the chains of an active package and on empty chains otherwise.
\<close>

lemma register_loop_chain:
  assumes "handlers st = Some m" and "nch st = Some n" and "register_loop h sl st = Inr st'"
  shows "chain_of st' s = (merged h ^^ count_list sl s) (chain_of st s)"
  using assms
proof (induction sl arbitrary: st m)
  case Nil
  then show ?case by simp
next
  case (Cons x sl)
  define m1 where "m1 = m(x \<mapsto> merged h (chain_of st x))"
  define st1 where "st1 = st\<lparr>handlers := Some m1,
             notified := (if m x = None then insert (n, x) (notified st) else notified st),
             notify_calls := notify_calls st @ (if m x = None then [(n, x)] else [])\<rparr>"
  have r: "register_sig h x st = Inr st1"
    unfolding st1_def m1_def using Cons.prems(1,2) by (rule register_sig_eq)
  have f: "handlers st1 = Some m1" "nch st1 = Some n"
    using Cons.prems by (simp_all add: st1_def)
  have c1: "chain_of st1 s = (if s = x then merged h (chain_of st s) else chain_of st s)"
    using Cons.prems(1) by (simp add: st1_def m1_def chain_of_def)
  from Cons.prems(3) r have "register_loop h sl st1 = Inr st'" by simp
  from Cons.IH [OF f this] have "chain_of st' s = (merged h ^^ count_list sl s) (chain_of st1 s)" .
  with c1 show ?case by (simp add: funpow_swap1)
qed

lemma register_chain:
  assumes "reachable st"
  shows "\<exists>st'. register h sl st = Inr st' \<and>
           (\<forall>s. chain_of st' s =
              (merged h ^^ count_list sl s) (if on st then chain_of st s else []))"
proof -
  define st1 where "st1 = (if \<not> on st then make_all st else st)"
  from reachable_invariants [OF assms] have "consistent st" by simp
  then obtain m n where m: "handlers st1 = Some m" and n: "nch st1 = Some n"
    by (cases "on st") (auto simp: st1_def make_all_def consistent_def)
  from register_loop_frame [OF m n, of h sl] obtain st2 where
    l: "register_loop h sl st1 = Inr st2" by blast
  have c: "chain_of st1 s = (if on st then chain_of st s else [])" for s
    by (simp add: st1_def)
  have "chain_of st2 s = (merged h ^^ count_list sl s) (if on st then chain_of st s else [])" for s
    using register_loop_chain [OF m n l, of s] by (simp only: c)
  then show ?thesis
    using l by (simp add: register_def st1_def [symmetric])
qed

text \<open>
  Claim C8. Within one activation each signal is subscribed exactly once. First, one round
  of the loop of \<^verbatim>\<open>register\<close> calls \<^verbatim>\<open>signal.Notify(nch, s)\<close> if and only if \<open>s\<close> is not a
  key of the map, and leaves \<open>s\<close> with a chain that is not empty. Second, in every reachable
  active state \<^verbatim>\<open>signal.Notify\<close> has been called with the current \<^verbatim>\<open>nch\<close> once for
  each key of the map and never for another signal, the signals relayed to \<^verbatim>\<open>nch\<close> are
  the keys, and no key has an empty chain. Every activation makes its own \<^verbatim>\<open>nch\<close>, so
  the calls with the current \<^verbatim>\<open>nch\<close> are the calls of the current activation.
\<close>

theorem subscribed_exactly_once:
  "(handlers st0 = Some m0 \<and> nch st0 = Some n0 \<longrightarrow>
      (\<exists>st'. register_sig h s st0 = Inr st' \<and>
         notify_calls st' = notify_calls st0 @ (if m0 s = None then [(n0, s)] else []) \<and>
         has_key st' s \<and> chain_of st' s \<noteq> [])) \<and>
   (reachable st \<and> on st \<longrightarrow>
      (\<exists>m n. handlers st = Some m \<and> nch st = Some n \<and>
         (\<forall>s. count_list (notify_calls st) (n, s) = (if m s = None then 0 else 1)) \<and>
         (\<forall>s. ((n, s) \<in> notified st) = (m s \<noteq> None)) \<and>
         (\<forall>s. m s \<noteq> Some [])))"
proof (intro conjI impI)
  assume a: "handlers st0 = Some m0 \<and> nch st0 = Some n0"
  define st' where "st' = st0\<lparr>handlers := Some (m0(s \<mapsto> merged h (chain_of st0 s))),
             notified := (if m0 s = None then insert (n0, s) (notified st0) else notified st0),
             notify_calls := notify_calls st0 @ (if m0 s = None then [(n0, s)] else [])\<rparr>"
  have "register_sig h s st0 = Inr st'"
    unfolding st'_def using a by (intro register_sig_eq) simp_all
  moreover have "notify_calls st' = notify_calls st0 @ (if m0 s = None then [(n0, s)] else [])"
    "has_key st' s" "chain_of st' s \<noteq> []"
    by (simp_all add: st'_def has_key_def chain_of_def)
  ultimately show "\<exists>st'. register_sig h s st0 = Inr st' \<and>
         notify_calls st' = notify_calls st0 @ (if m0 s = None then [(n0, s)] else []) \<and>
         has_key st' s \<and> chain_of st' s \<noteq> []"
    by blast
next
  assume "reachable st \<and> on st"
  with reachable_invariants [of st] have "subscribed_once st" by simp
  then show "\<exists>m n. handlers st = Some m \<and> nch st = Some n \<and>
         (\<forall>s. count_list (notify_calls st) (n, s) = (if m s = None then 0 else 1)) \<and>
         (\<forall>s. ((n, s) \<in> notified st) = (m s \<noteq> None)) \<and>
         (\<forall>s. m s \<noteq> Some [])"
    by (simp add: subscribed_once_def)
qed

theorem subscribed_exactly_once_witness:
  "handlers ex_ABC = Some [SIGUSR1 \<mapsto> [hA, hB, hC]] \<and> nch ex_ABC = Some 2 \<and>
   (\<exists>st'. register_sig hA SIGUSR1 ex_ABC = Inr st' \<and> notify_calls st' = [(2, SIGUSR1)]) \<and>
   (\<exists>st'. register_sig hA SIGUSR2 ex_ABC = Inr st' \<and>
      notify_calls st' = [(2, SIGUSR1), (2, SIGUSR2)]) \<and>
   reachable ex_ABC \<and> on ex_ABC \<and>
   count_list (notify_calls ex_ABC) (2, SIGUSR1) = 1 \<and>
   count_list (notify_calls ex_ABC) (2, SIGUSR2) = 0 \<and>
   (2, SIGUSR1) \<in> notified ex_ABC \<and> (2, SIGUSR2) \<notin> notified ex_ABC"
proof -
  have h: "handlers ex_ABC = Some [SIGUSR1 \<mapsto> [hA, hB, hC]]" "nch ex_ABC = Some 2"
    "on ex_ABC" "notify_calls ex_ABC = [(2, SIGUSR1)]" "notified ex_ABC = {(2, SIGUSR1)}"
    by (simp_all add: ex_ABC_def)
  from subscribed_exactly_once
    [of ex_ABC "[SIGUSR1 \<mapsto> [hA, hB, hC]]" 2 hA SIGUSR1 ex_ABC] h(1-3) ex_ABC_reachable
  have 1: "\<exists>st'. register_sig hA SIGUSR1 ex_ABC = Inr st' \<and> notify_calls st' = [(2, SIGUSR1)]"
    by (auto simp: h(4))
  from subscribed_exactly_once
    [of ex_ABC "[SIGUSR1 \<mapsto> [hA, hB, hC]]" 2 hA SIGUSR2 ex_ABC] h(1-3) ex_ABC_reachable
  have 2: "\<exists>st'. register_sig hA SIGUSR2 ex_ABC = Inr st' \<and>
      notify_calls st' = [(2, SIGUSR1), (2, SIGUSR2)]"
    by (auto simp: h(4) ex_defs)
  from 1 2 h ex_ABC_reachable show ?thesis
    by (simp add: ex_defs)
qed

section \<open>Stop, then a new activation\<close>

lemma register_loop_det:
  assumes "handlers st = Some m" and "nch st = Some n"
    and "handlers sta = Some m" and "nch sta = Some na"
  shows "\<exists>st' sta' m'. register_loop h sl st = Inr st' \<and> register_loop h sl sta = Inr sta' \<and>
           handlers st' = Some m' \<and> handlers sta' = Some m' \<and> dom m' = dom m \<union> set sl"
  using assms
proof (induction sl arbitrary: st sta m)
  case Nil
  then show ?case by simp
next
  case (Cons s sl)
  define m1 where "m1 = m(s \<mapsto> merged h (chain_of st s))"
  define st1 where "st1 = st\<lparr>handlers := Some m1,
             notified := (if m s = None then insert (n, s) (notified st) else notified st),
             notify_calls := notify_calls st @ (if m s = None then [(n, s)] else [])\<rparr>"
  define sta1 where "sta1 = sta\<lparr>handlers := Some m1,
             notified := (if m s = None then insert (na, s) (notified sta) else notified sta),
             notify_calls := notify_calls sta @ (if m s = None then [(na, s)] else [])\<rparr>"
  have ch: "chain_of sta s = chain_of st s"
    using Cons.prems by (simp add: chain_of_def)
  have r: "register_sig h s st = Inr st1"
    unfolding st1_def m1_def using Cons.prems(1,2) by (rule register_sig_eq)
  have ra: "register_sig h s sta = Inr sta1"
    unfolding sta1_def m1_def ch [symmetric] using Cons.prems(3,4) by (rule register_sig_eq)
  have f: "handlers st1 = Some m1" "nch st1 = Some n" "handlers sta1 = Some m1" "nch sta1 = Some na"
    using Cons.prems by (simp_all add: st1_def sta1_def)
  from Cons.IH [OF f] obtain st' sta' m' where
    "register_loop h sl st1 = Inr st'" "register_loop h sl sta1 = Inr sta'"
    "handlers st' = Some m'" "handlers sta' = Some m'" "dom m' = dom m1 \<union> set sl"
    by blast
  moreover have "dom m1 = insert s (dom m)" by (simp add: m1_def)
  ultimately show ?case using r ra by simp
qed

lemma register_loop_notified:
  assumes "handlers st = Some m" and "nch st = Some n" and "register_loop h sl st = Inr st'"
  shows "notified st' = notified st \<union> {n} \<times> (set sl - dom m)"
  using assms
proof (induction sl arbitrary: st m)
  case Nil
  then show ?case by simp
next
  case (Cons s sl)
  define m1 where "m1 = m(s \<mapsto> merged h (chain_of st s))"
  define st1 where "st1 = st\<lparr>handlers := Some m1,
             notified := (if m s = None then insert (n, s) (notified st) else notified st),
             notify_calls := notify_calls st @ (if m s = None then [(n, s)] else [])\<rparr>"
  have r: "register_sig h s st = Inr st1"
    unfolding st1_def m1_def using Cons.prems(1,2) by (rule register_sig_eq)
  have f: "handlers st1 = Some m1" "nch st1 = Some n"
    using Cons.prems by (simp_all add: st1_def)
  from Cons.prems(3) r have "register_loop h sl st1 = Inr st'" by simp
  from Cons.IH [OF f this] have "notified st' = notified st1 \<union> {n} \<times> (set sl - dom m1)" .
  moreover have "dom m1 = insert s (dom m)" by (simp add: m1_def)
  moreover have "notified st1 = (if m s = None then insert (n, s) (notified st) else notified st)"
    by (simp add: st1_def)
  ultimately show ?case by (auto simp: domIff)
qed

lemma register_inactive:
  assumes "\<not> on st"
  shows "\<exists>st2 stf m'. register h sl st = Inr st2 \<and> register h sl (init w) = Inr stf \<and>
           handlers st2 = Some m' \<and> handlers stf = Some m' \<and> dom m' = set sl \<and>
           on st2 \<and> loops st2 = loops st + 1 \<and>
           done_ch st2 = Some (nalloc st) \<and> down st2 = Some (nalloc st + 1) \<and>
           nch st2 = Some (nalloc st + 2) \<and> nalloc st2 = nalloc st + 3 \<and>
           closed st2 = closed st \<and>
           notified st2 = notified st \<union> {nalloc st + 2} \<times> set sl"
proof -
  have a: "handlers (make_all st) = Some Map.empty" "nch (make_all st) = Some (nalloc st + 2)"
    "handlers (make_all (init w)) = Some Map.empty" "nch (make_all (init w)) = Some 2"
    by (simp_all add: make_all_def init_def)
  from register_loop_det [OF a, of h sl] obtain st' sta' m' where
    l: "register_loop h sl (make_all st) = Inr st'"
      "register_loop h sl (make_all (init w)) = Inr sta'"
    and h: "handlers st' = Some m'" "handlers sta' = Some m'" "dom m' = set sl"
    by auto
  from register_loop_frame [OF a(1,2), of h sl] l(1)
  have fr: "on st' = on (make_all st)" "nch st' = nch (make_all st)"
    "done_ch st' = done_ch (make_all st)" "down st' = down (make_all st)"
    "nalloc st' = nalloc (make_all st)" "closed st' = closed (make_all st)"
    "loops st' = loops (make_all st)"
    by simp_all
  from register_loop_frame [OF a(3,4), of h sl] l(2)
  have fra: "on sta' = on (make_all (init w))" by simp
  have nt: "notified st' = notified (make_all st) \<union> {nalloc st + 2} \<times> set sl"
    using register_loop_notified [OF a(1,2) l(1)] by simp
  have r: "register h sl st = Inr (st'\<lparr>loops := loops st' + 1, on := True\<rparr>)"
    using assms l(1) fr(1) by (simp add: register_def make_all_def)
  have ra: "register h sl (init w) = Inr (sta'\<lparr>loops := loops sta' + 1, on := True\<rparr>)"
    using l(2) fra by (simp add: register_def make_all_def init_def)
  show ?thesis
    unfolding r ra using h fr nt by (simp add: make_all_def)
qed

text \<open>
  In a reachable active state \<^verbatim>\<open>Stop\<close> returns, and it has unsubscribed \<^verbatim>\<open>nch\<close> from
  every signal, closed \<^verbatim>\<open>done\<close>, which was open, found \<^verbatim>\<open>down\<close> closed by the
  dispatch goroutine, and set \<^verbatim>\<open>on\<close> to false, calling no handler. A registration made
  after it builds the chains that the same registration builds at process start, on three
  newly allocated open channels, with the signals of the call as the only subscriptions.
\<close>

lemma Stop_then_register_fresh:
  assumes "reachable st" and "on st"
  shows "\<exists>n d e st1.
           nch st = Some n \<and> done_ch st = Some d \<and> down st = Some e \<and>
           n < nalloc st \<and> d < nalloc st \<and> e < nalloc st \<and>
           d \<notin> closed st \<and> e \<notin> closed st \<and> loops st = 1 \<and>
           Stop st = Inr st1 \<and>
           (\<forall>s. (n, s) \<notin> notified st1) \<and>
           closed st1 = insert e (insert d (closed st)) \<and>
           loops st1 = 0 \<and> \<not> on st1 \<and> calls st1 = calls st \<and>
           (\<forall>h sl. \<exists>st2 stf m'.
              register h sl st1 = Inr st2 \<and> register h sl (init (world st1)) = Inr stf \<and>
              handlers st2 = Some m' \<and> handlers stf = Some m' \<and> dom m' = set sl \<and>
              on st2 \<and> loops st2 = 1 \<and>
              done_ch st2 = Some (nalloc st) \<and> down st2 = Some (nalloc st + 1) \<and>
              nch st2 = Some (nalloc st + 2) \<and>
              nalloc st \<notin> closed st2 \<and> nalloc st + 1 \<notin> closed st2 \<and>
              (\<forall>s. ((nalloc st + 2, s) \<in> notified st2) = (s \<in> set sl)) \<and>
              (\<forall>s. (n, s) \<notin> notified st2))"
proof -
  from reachable_invariants [OF assms(1)] have c: "consistent st" by simp
  with assms(2) obtain n d e where
    ch: "nch st = Some n" "done_ch st = Some d" "down st = Some e"
    and op: "d \<notin> closed st" "e \<notin> closed st" and l: "loops st = 1"
    by (auto simp: consistent_def)
  have lt: "n < nalloc st" "d < nalloc st" "e < nalloc st"
    using c ch by (simp_all add: consistent_def)
  have old: "\<forall>c \<in> closed st. c < nalloc st" "\<forall>p \<in> notified st. fst p < nalloc st"
    using c by (simp_all add: consistent_def)
  define st1 where "st1 = st\<lparr>on := False,
                          closed := insert e (insert d (closed st)),
                          notified := {p \<in> notified st. fst p \<noteq> n},
                          loops := 0\<rparr>"
  have s: "Stop st = Inr st1"
    unfolding st1_def using c assms(2) ch by (rule Stop_active_eq)
  have f1: "\<not> on st1" "loops st1 = 0" "nalloc st1 = nalloc st" "calls st1 = calls st"
    "closed st1 = insert e (insert d (closed st))"
    "notified st1 = {p \<in> notified st. fst p \<noteq> n}"
    by (simp_all add: st1_def)
  have un: "\<forall>s. (n, s) \<notin> notified st1"
    by (simp add: f1)
  have fresh: "\<exists>st2 stf m'.
              register h sl st1 = Inr st2 \<and> register h sl (init (world st1)) = Inr stf \<and>
              handlers st2 = Some m' \<and> handlers stf = Some m' \<and> dom m' = set sl \<and>
              on st2 \<and> loops st2 = 1 \<and>
              done_ch st2 = Some (nalloc st) \<and> down st2 = Some (nalloc st + 1) \<and>
              nch st2 = Some (nalloc st + 2) \<and>
              nalloc st \<notin> closed st2 \<and> nalloc st + 1 \<notin> closed st2 \<and>
              (\<forall>s. ((nalloc st + 2, s) \<in> notified st2) = (s \<in> set sl)) \<and>
              (\<forall>s. (n, s) \<notin> notified st2)" for h sl
  proof -
    from register_inactive [OF f1(1), of h sl "world st1"] obtain st2 stf m' where
      r: "register h sl st1 = Inr st2" "register h sl (init (world st1)) = Inr stf"
        "handlers st2 = Some m'" "handlers stf = Some m'" "dom m' = set sl"
        "on st2" "loops st2 = loops st1 + 1"
        "done_ch st2 = Some (nalloc st1)" "down st2 = Some (nalloc st1 + 1)"
        "nch st2 = Some (nalloc st1 + 2)"
        "closed st2 = closed st1"
        "notified st2 = notified st1 \<union> {nalloc st1 + 2} \<times> set sl"
      by blast
    have a: "nalloc st \<notin> closed st2" "nalloc st + 1 \<notin> closed st2"
      using old(1) lt by (auto simp: r(11) f1(5))
    have b: "\<forall>s. ((nalloc st + 2, s) \<in> notified st2) = (s \<in> set sl)"
      using old(2) by (auto simp: r(12) f1)
    have d: "\<forall>s. (n, s) \<notin> notified st2"
      using lt(1) by (auto simp: r(12) f1)
    from r a b d show ?thesis
      by (intro exI [of _ st2] exI [of _ stf] exI [of _ m']) (simp add: f1)
  qed
  from ch lt op l s un f1 fresh show ?thesis
    by (intro exI [of _ n] exI [of _ d] exI [of _ e] exI [of _ st1]) simp
qed

lemma ex_fresh_register: "register hA [SIGUSR2] ex_stopped = Inr ex_fresh"
  by (simp add: ex_stopped_def ex_fresh_def model_defs ex_defs)

text \<open>
  What \<^verbatim>\<open>Stop\<close> writes, in any state: a \<^verbatim>\<open>Stop\<close> that returns from an active state has
  cleared \<^verbatim>\<open>on\<close> and nothing else of the package variables; \<^verbatim>\<open>done\<close> was open and is
  closed, and \<^verbatim>\<open>down\<close> is a channel that is closed. With no dispatch goroutine to close
  \<^verbatim>\<open>down\<close>, the receive of line 45 never returns.
\<close>

lemma run_loops_frame:
  "run_loops k st = Inr st' \<Longrightarrow>
     on st' = on st \<and> handlers st' = handlers st \<and> nch st' = nch st \<and>
     done_ch st' = done_ch st \<and> down st' = down st \<and> nalloc st' = nalloc st"
proof (induction k arbitrary: st)
  case 0
  then show ?case by simp
next
  case (Suc k)
  from Suc.prems obtain st1 where h: "handleSignals [RDone] st = Inr st1"
    and r: "run_loops k st1 = Inr st'"
    by (auto split: sum.splits)
  from h have "on st1 = on st \<and> handlers st1 = handlers st \<and> nch st1 = nch st \<and>
     done_ch st1 = done_ch st \<and> down st1 = down st \<and> nalloc st1 = nalloc st"
    by (auto simp: close_chan_def split: sum.splits option.splits if_splits)
  with Suc.IH [OF r] show ?case by simp
qed

lemma Stop_frame:
  assumes "on st" and "Stop st = Inr st1"
  shows "\<not> on st1 \<and> handlers st1 = handlers st \<and> nch st1 = nch st \<and>
         done_ch st1 = done_ch st \<and> down st1 = down st \<and> nalloc st1 = nalloc st \<and>
         (\<exists>d e. done_ch st = Some d \<and> d \<notin> closed st \<and> d \<in> closed st1 \<and>
                down st = Some e \<and> e \<in> closed st1)"
proof -
  define st1a where "st1a = signal_Stop (nch st) st"
  have a: "on st1a = on st" "handlers st1a = handlers st" "nch st1a = nch st"
    "done_ch st1a = done_ch st" "down st1a = down st" "nalloc st1a = nalloc st"
    "closed st1a = closed st"
    by (simp_all add: st1a_def signal_Stop_def split: option.splits)
  from assms obtain st2 st3 where c: "close_chan (done_ch st1a) st1a = Inr st2"
    and r: "run_loops (loops st2) st2 = Inr st3"
    and v: "recv_closed (down st3) st3 = Inr st3"
    and s: "st1 = st3\<lparr>on := False\<rparr>"
    by (auto simp: Stop_def Let_def st1a_def recv_closed_def
        split: sum.splits option.splits if_splits)
  from c obtain d where d: "done_ch st1a = Some d" "d \<notin> closed st1a"
    "st2 = st1a\<lparr>closed := insert d (closed st1a)\<rparr>"
    by (auto simp: close_chan_def split: option.splits if_splits)
  from v obtain e where e: "down st3 = Some e" "e \<in> closed st3"
    by (auto simp: recv_closed_def split: option.splits if_splits)
  have mono: "d \<in> closed st3"
    using r d(3)
  proof -
    have "run_loops k x = Inr y \<Longrightarrow> closed x \<subseteq> closed y" for k and x y :: "'a state"
    proof (induction k arbitrary: x)
      case 0
      then show ?case by simp
    next
      case (Suc k)
      from Suc.prems obtain x1 where h: "handleSignals [RDone] x = Inr x1"
        and r: "run_loops k x1 = Inr y"
        by (auto split: sum.splits)
      from h have "closed x \<subseteq> closed x1"
        by (auto simp: close_chan_def split: sum.splits option.splits if_splits)
      with Suc.IH [OF r] show ?case by blast
    qed
    from this [OF r] d(3) show ?thesis by auto
  qed
  from run_loops_frame [OF r] d(3) a
  have f: "on st3 = on st" "handlers st3 = handlers st" "nch st3 = nch st"
    "done_ch st3 = done_ch st" "down st3 = down st" "nalloc st3 = nalloc st"
    by simp_all
  have dd: "done_ch st = Some d" "d \<notin> closed st" using d(1,2) a(4,7) by simp_all
  have ee: "down st = Some e" using e(1) f(5) by simp
  have "closed st1 = closed st3" "\<not> on st1" "handlers st1 = handlers st" "nch st1 = nch st"
    "done_ch st1 = done_ch st" "down st1 = down st" "nalloc st1 = nalloc st"
    using s f by simp_all
  with dd ee e(2) mono show ?thesis by simp
qed

lemma Stop_blocks:
  assumes "on st" and "loops st = 0" and "done_ch st = Some d" and "d \<notin> closed st"
    and "down st = None \<or> (\<exists>e. down st = Some e \<and> e \<noteq> d \<and> e \<notin> closed st)"
  shows "Stop st = Inl BlocksForever"
  using assms
  by (auto simp: Stop_def signal_Stop_def close_chan_def recv_closed_def split: option.splits)

lemma ex_no_loop_blocks: "Stop (ex_ABC\<lparr>loops := 0\<rparr>) = Inl BlocksForever"
  by (simp add: ex_ABC_def model_defs)

section \<open>Dispatch\<close>

lemma run_chain_prefix:
  "map fst (fst (run_chain c s w)) = take (length (fst (run_chain c s w))) c"
  by (induction c arbitrary: w) (simp_all add: Let_def)

lemma run_chain_args: "\<forall>x \<in> set (fst (run_chain c s w)). fst (snd x) = s"
  by (induction c arbitrary: w) (simp_all add: Let_def)

lemma run_chain_results_true:
  "\<forall>x \<in> set (butlast (fst (run_chain c s w))). snd (snd x)"
proof (induction c arbitrary: w)
  case Nil
  then show ?case by simp
next
  case (Cons h hs)
  then show ?case
    by (cases hs) (auto simp: Let_def)
qed

lemma run_chain_short:
  "length (fst (run_chain c s w)) < length c \<Longrightarrow>
     fst (run_chain c s w) \<noteq> [] \<and> \<not> snd (snd (last (fst (run_chain c s w))))"
proof (induction c arbitrary: w)
  case Nil
  then show ?case by simp
next
  case (Cons h hs)
  show ?case
  proof (cases "fst (hdlr h s w)")
    case False
    then show ?thesis by simp
  next
    case True
    let ?rest = "fst (run_chain hs s (snd (hdlr h s w)))"
    from True Cons.prems have "length ?rest < length hs"
      by (simp add: Let_def)
    from Cons.IH [OF this] True show ?thesis
      by (simp add: Let_def)
  qed
qed

lemma run_chain_invoke_all:
  "fst (run_chain c s w) = up_to_first_false (invoke_all c s w)"
  by (induction c arbitrary: w) (simp_all add: Let_def up_to_first_false_def returned_true_def)

lemma invoke_all_chain: "map fst (invoke_all c s w) = c"
  by (induction c arbitrary: w) (simp_all add: Let_def)

lemma reachable_deliver:
  assumes "reachable st" and "on st" and "has_key st s"
  shows "deliver s st = Inr (dispatch s st)"
proof -
  from reachable_invariants [OF assms(1)] assms(2)
  have c: "consistent st" and so: "subscribed_once st" by simp_all
  from so obtain m n where "handlers st = Some m" "nch st = Some n"
    "\<forall>s. ((n, s) \<in> notified st) = (m s \<noteq> None)"
    unfolding subscribed_once_def by blast
  moreover from c assms(2) have "loops st = 1" by (simp add: consistent_def)
  ultimately show ?thesis
    using assms(3) by (simp add: deliver_def has_key_def)
qed

text \<open>
  Claim C1. When a signal \<open>s\<close> with a registered chain is delivered in a reachable active
  state, the dispatch goroutine receives it and runs the function literal of
  \<^verbatim>\<open>handleSignals\<close> on it. That dispatch calls the handlers of the chain of \<open>s\<close> in chain
  order, each with the argument \<open>s\<close>: the invocations \<open>cs\<close> it adds are the invocations of
  the whole chain cut after the first one that returned false. So \<open>cs\<close> follows a prefix of
  the chain, every invocation but the last returned true, and the dispatch stops before
  the end of the chain only after an invocation that returned false. The order of a chain is
  the order of registration (\<open>registration_order\<close> below).
\<close>

theorem delivered_signal_walks_chain:
  "(reachable st \<and> on st \<and> has_key st s \<longrightarrow> deliver s st = Inr (dispatch s st)) \<and>
   handleSignals [RSig s] st = Inr (dispatch s st) \<and>
   (\<exists>cs. calls (dispatch s st) = calls st @ cs \<and>
      cs = up_to_first_false (invoke_all (chain_of st s) s (world st)) \<and>
      map fst cs = take (length cs) (chain_of st s) \<and>
      (\<forall>x \<in> set cs. fst (snd x) = s) \<and>
      (\<forall>x \<in> set (butlast cs). returned_true x) \<and>
      (length cs < length (chain_of st s) \<longrightarrow> cs \<noteq> [] \<and> \<not> returned_true (last cs)))"
proof -
  let ?cs = "fst (run_chain (chain_of st s) s (world st))"
  have "calls (dispatch s st) = calls st @ ?cs"
    by (simp add: dispatch_def Let_def)
  then have "\<exists>cs. calls (dispatch s st) = calls st @ cs \<and>
      cs = up_to_first_false (invoke_all (chain_of st s) s (world st)) \<and>
      map fst cs = take (length cs) (chain_of st s) \<and>
      (\<forall>x \<in> set cs. fst (snd x) = s) \<and>
      (\<forall>x \<in> set (butlast cs). returned_true x) \<and>
      (length cs < length (chain_of st s) \<longrightarrow> cs \<noteq> [] \<and> \<not> returned_true (last cs))"
    using run_chain_prefix [of "chain_of st s" s "world st"]
      run_chain_args [of "chain_of st s" s "world st"]
      run_chain_results_true [of "chain_of st s" s "world st"]
      run_chain_short [of "chain_of st s" s "world st"]
      run_chain_invoke_all [of "chain_of st s" s "world st"]
    by (intro exI [of _ ?cs]) (simp add: returned_true_def)
  then show ?thesis
    using reachable_deliver [of st s] by simp
qed

theorem delivered_signal_walks_chain_witness:
  "reachable ex_ABC \<and> on ex_ABC \<and> has_key ex_ABC SIGUSR1 \<and>
   chain_of ex_ABC SIGUSR1 = [hA, hB, hC] \<and>
   deliver SIGUSR1 ex_ABC = Inr (dispatch SIGUSR1 ex_ABC) \<and>
   calls (dispatch SIGUSR1 ex_ABC) = [(hA, SIGUSR1, True), (hB, SIGUSR1, False)] \<and>
   world (dispatch SIGUSR1 ex_ABC) = [''A'', ''B''] \<and>
   length [(hA, SIGUSR1, True), (hB, SIGUSR1, False)] < length (chain_of ex_ABC SIGUSR1) \<and>
   \<not> returned_true (last [(hA, SIGUSR1, True), (hB, SIGUSR1, False)])"
proof -
  have a: "on ex_ABC" "has_key ex_ABC SIGUSR1" "chain_of ex_ABC SIGUSR1 = [hA, hB, hC]"
    by (simp_all add: ex_ABC_def has_key_def chain_of_def)
  have b: "calls (dispatch SIGUSR1 ex_ABC) = [(hA, SIGUSR1, True), (hB, SIGUSR1, False)]"
    "world (dispatch SIGUSR1 ex_ABC) = [''A'', ''B'']"
    by (simp_all add: dispatch_def a(3) Let_def hA_def hB_def hdlrA_def hdlrB_def)
       (simp_all add: ex_ABC_def)
  from delivered_signal_walks_chain [of ex_ABC SIGUSR1, THEN conjunct1] ex_ABC_reachable a(1,2)
  have "deliver SIGUSR1 ex_ABC = Inr (dispatch SIGUSR1 ex_ABC)" by simp
  with ex_ABC_reachable a b show ?thesis
    by (simp add: returned_true_def)
qed

text \<open>
  Handlers that are not soft, registered one call after the other for \<open>s\<close>, are the chain of
  \<open>s\<close> in that order (after what the chain held before, on an active package).
\<close>

lemma register_appends:
  assumes "handlers st = Some m" and "nch st = Some n" and "on st"
    and "chain_of st s = [] \<or> \<not> soft (last (chain_of st s))"
  shows "\<exists>st' m'. register h [s] st = Inr st' \<and> handlers st' = Some m' \<and> nch st' = Some n \<and>
           on st' \<and> chain_of st' s = chain_of st s @ [h]"
proof -
  define st' where "st' = st\<lparr>handlers := Some (m(s \<mapsto> merged h (chain_of st s))),
             notified := (if m s = None then insert (n, s) (notified st) else notified st),
             notify_calls := notify_calls st @ (if m s = None then [(n, s)] else [])\<rparr>"
  have r: "register_sig h s st = Inr st'"
    unfolding st'_def using assms(1,2) by (rule register_sig_eq)
  have "merged h (chain_of st s) = chain_of st s @ [h]"
    using assms(4) by (auto simp: merged_def)
  then have "chain_of st' s = chain_of st s @ [h]" "on st'" "nch st' = Some n"
    "handlers st' = Some (m(s \<mapsto> merged h (chain_of st s)))"
    using assms(2,3) by (simp_all add: st'_def chain_of_def)
  with r assms(3) show ?thesis
    by (simp add: register_def)
qed

lemma registration_order_active:
  assumes "handlers st = Some m" and "nch st = Some n" and "on st"
    and "chain_of st s = [] \<or> \<not> soft (last (chain_of st s))"
    and "\<forall>h \<in> set hs. \<not> soft h"
  shows "\<exists>st'. run (map (\<lambda>h. Register h [s]) hs) st = Inr st' \<and>
           chain_of st' s = chain_of st s @ hs"
  using assms
proof (induction hs arbitrary: st m)
  case Nil
  then show ?case by simp
next
  case (Cons h hs)
  from register_appends [OF Cons.prems(1-4), of h] obtain st1 m1 where
    r: "register h [s] st = Inr st1" and f: "handlers st1 = Some m1" "nch st1 = Some n" "on st1"
    and c: "chain_of st1 s = chain_of st s @ [h]"
    by blast
  have "chain_of st1 s = [] \<or> \<not> soft (last (chain_of st1 s))"
    using c Cons.prems(5) by simp
  from Cons.IH [OF f this] Cons.prems(5) r c show ?case by simp
qed

lemma registration_order:
  assumes "reachable st" and "\<forall>h \<in> set hs. \<not> soft h" and "hs \<noteq> []"
    and "\<not> on st \<or> chain_of st s = [] \<or> \<not> soft (last (chain_of st s))"
  shows "\<exists>st'. run (map (\<lambda>h. Register h [s]) hs) st = Inr st' \<and>
           chain_of st' s = (if on st then chain_of st s else []) @ hs"
proof (cases "on st")
  case True
  from reachable_invariants [OF assms(1)] True obtain m n where
    "handlers st = Some m" "nch st = Some n"
    by (auto simp: consistent_def)
  from registration_order_active [OF this True _ assms(2), of s] assms(4) True
  show ?thesis by simp
next
  case False
  from assms(3) obtain h hs' where hs: "hs = h # hs'" by (cases hs) auto
  have "\<exists>st1 m1. register h [s] st = Inr st1 \<and> handlers st1 = Some m1 \<and> on st1 \<and>
           nch st1 = Some (nalloc st + 2) \<and> chain_of st1 s = [h]"
    using False by (simp add: model_defs)
  then obtain st1 m1 where
    r: "register h [s] st = Inr st1" and f: "handlers st1 = Some m1" "on st1"
      "nch st1 = Some (nalloc st + 2)" and c1: "chain_of st1 s = [h]"
    by blast
  have "chain_of st1 s = [] \<or> \<not> soft (last (chain_of st1 s))"
    using c1 assms(2) hs by simp
  from registration_order_active [OF f(1,3,2) this, of hs'] assms(2) hs r c1 False
  show ?thesis by simp
qed

text \<open>
  Claim C10. When the dispatch goroutine receives a signal \<open>s\<close> that is not a key of the
  map (never registered, or registered only in an activation whose map has been replaced),
  the dispatch calls no handler and changes nothing, and the goroutine goes round to its
  \<^verbatim>\<open>select\<close> again: what it does with the outcomes that follow is what it would have
  done without \<open>s\<close>.
\<close>

theorem unregistered_signal_invokes_nothing:
  assumes "\<not> has_key st s"
  shows "dispatch s st = st \<and> handleSignals [RSig s] st = Inr st \<and>
         handleSignals (RSig s # rs) st = handleSignals rs st"
proof -
  from assms have "chain_of st s = []"
    by (auto simp: has_key_def chain_of_def split: option.splits)
  then have "dispatch s st = st"
    by (simp add: dispatch_def)
  then show ?thesis by simp
qed

theorem unregistered_signal_invokes_nothing_witness:
  "\<not> has_key ex_ABC SIGUSR2 \<and> dispatch SIGUSR2 ex_ABC = ex_ABC \<and>
   handleSignals [RSig SIGUSR2] ex_ABC = Inr ex_ABC \<and>
   handleSignals [RSig SIGUSR2, RSig SIGUSR1] ex_ABC = handleSignals [RSig SIGUSR1] ex_ABC"
proof -
  have "\<not> has_key ex_ABC SIGUSR2"
    by (simp add: ex_ABC_def has_key_def ex_defs)
  from unregistered_signal_invokes_nothing [OF this, of "[RSig SIGUSR1]"] this
  show ?thesis by simp
qed

section \<open>Stop beside the dispatch goroutine\<close>

lemma loop_at_upd:
  "loop_at d e (sh\<lparr>notified := x\<rparr>) u q = loop_at d e sh u q"
  "loop_at d e (sh\<lparr>on := b\<rparr>) u q = loop_at d e sh u q"
  "loop_at d e (sh\<lparr>world := w, calls := cs\<rparr>) u q = loop_at d e sh u q"
  "d \<noteq> e \<Longrightarrow> loop_at d e (sh\<lparr>closed := insert d (closed sh)\<rparr>) u q = loop_at d e sh u q"
  by (cases q; simp)+

lemma loop_at_signal_Stop: "loop_at d e (signal_Stop n sh) u q = loop_at d e sh u q"
  by (simp add: signal_Stop_def loop_at_upd split: option.splits)

lemma stop_at_upd:
  "stop_at d e (sh\<lparr>world := w, calls := cs\<rparr>) p = stop_at d e sh p"
  by (cases p) simp_all

lemma stop_inv_Run0:
  assumes "stop_inv d e c" and "act_step (Run 0) c = Some c'"
  shows "stop_inv d e c'"
proof -
  from assms(1) obtain p q where g: "goroutines c = [p, q]"
    and p: "stop_at d e (shared c) p" and q: "loop_at d e (shared c) (utx c) q"
    and f: "d \<noteq> e" "\<not> crashed c" "done_ch (shared c) = Some d" "down (shared c) = Some e"
    unfolding stop_inv_def by blast
  from assms(2) g f(2) have s: "stmt 0 p c = Some c'"
    by (simp add: act_step_def)
  show ?thesis
  proof (cases p)
    case S42
    with s have "c' = goto 0 (if on (shared c) then S43 else Ret) c" by simp
    with S42 p q g f show ?thesis
      by (simp add: stop_inv_def goto_def)
  next
    case S43
    with s have "c' = goto 0 S44 (c\<lparr>shared := signal_Stop (nch (shared c)) (shared c)\<rparr>)"
      by simp
    moreover have "closed (signal_Stop n sh) = closed sh"
      "done_ch (signal_Stop n (shared c)) = done_ch (shared c)"
      "down (signal_Stop n (shared c)) = down (shared c)" for n and sh :: "'a state"
      by (simp_all add: signal_Stop_def split: option.splits)
    ultimately show ?thesis
      using S43 p q g f by (simp add: stop_inv_def goto_def loop_at_signal_Stop)
  next
    case S44
    with p have "d \<notin> closed (shared c)" by simp
    with s S44 f have "c' = goto 0 S45 (c\<lparr>shared := (shared c)\<lparr>closed := insert d (closed (shared c))\<rparr>\<rparr>)"
      by (simp add: close_chan_def)
    with S44 p q g f show ?thesis
      by (simp add: stop_inv_def goto_def loop_at_upd)
  next
    case S45
    with s have "c' = goto 0 (S45w (down (shared c))) c" by simp
    with S45 p q g f show ?thesis
      by (simp add: stop_inv_def goto_def)
  next
    case (S45w d')
    with p have "d' = Some e" by simp
    with s S45w have "e \<in> closed (shared c)" and "c' = goto 0 S46 c"
      by (auto simp: recv_closed_def split: if_splits)
    with S45w p q g f show ?thesis
      by (simp add: stop_inv_def goto_def)
  next
    case S46
    with s have "c' = goto 0 Ret (c\<lparr>shared := (shared c)\<lparr>on := False\<rparr>\<rparr>)" by simp
    with S46 p q g f show ?thesis
      by (simp add: stop_inv_def goto_def loop_at_upd)
  qed (use s p in simp_all)
qed

lemma stop_inv_Run1:
  assumes "stop_inv d e c" and "act_step (Run (Suc 0)) c = Some c'"
  shows "stop_inv d e c'"
proof -
  from assms(1) obtain p q where g: "goroutines c = [p, q]"
    and p: "stop_at d e (shared c) p" and q: "loop_at d e (shared c) (utx c) q"
    and f: "d \<noteq> e" "\<not> crashed c" "done_ch (shared c) = Some d" "down (shared c) = Some e"
    unfolding stop_inv_def by blast
  from assms(2) g f(2) have s: "stmt (Suc 0) q c = Some c'"
    by (simp add: act_step_def)
  show ?thesis
  proof (cases q)
    case L132
    with s have "c' = goto (Suc 0) (L133 (done_ch (shared c)) (nch (shared c))) c" by simp
    with L132 p q g f show ?thesis
      by (simp add: stop_inv_def goto_def)
  next
    case (L133 d' n')
    with s q have "c' = goto (Suc 0) L135 c"
      by (auto split: if_splits)
    with L133 p q g f show ?thesis
      by (simp add: stop_inv_def goto_def)
  next
    case L135
    with q have "e \<notin> closed (shared c)" by simp
    with s L135 f have c': "c' = goto (Suc 0) Ret
        (c\<lparr>shared := (shared c)\<lparr>closed := insert e (closed (shared c)),
                                  loops := loops (shared c) - 1\<rparr>\<rparr>)"
      by (simp add: close_chan_def)
    have "stop_at d e ((shared c)\<lparr>closed := insert e (closed (shared c)),
                                  loops := loops (shared c) - 1\<rparr>) p"
      using p f(1) by (cases p) auto
    with c' L135 q g f show ?thesis
      by (simp add: stop_inv_def goto_def)
  next
    case (L147 sg)
    with s have "utx c = None" and "c' = goto (Suc 0) (L150 sg) (c\<lparr>utx := Some (Suc 0)\<rparr>)"
      by (auto split: if_splits)
    with L147 p q g f show ?thesis
      by (simp add: stop_inv_def goto_def)
  next
    case (L150 sg)
    with s have "c' = goto (Suc 0) (L152 sg (chain_of (shared c) sg)) c" by simp
    with L150 p q g f show ?thesis
      by (simp add: stop_inv_def goto_def)
  next
    case (L152 sg hs)
    show ?thesis
    proof (cases hs)
      case Nil
      with s L152 have "c' = goto (Suc 0) L148 c" by simp
      with L152 p q g f show ?thesis
        by (simp add: stop_inv_def goto_def)
    next
      case (Cons h hs')
      define r where "r = hdlr h sg (world (shared c))"
      define sh' where "sh' = (shared c)\<lparr>world := snd r,
                                 calls := calls (shared c) @ [(h, sg, fst r)]\<rparr>"
      from s L152 Cons have c': "c' = goto (Suc 0) (if fst r then L152 sg hs' else L148)
           (c\<lparr>shared := sh'\<rparr>)"
        by (simp add: Let_def r_def sh'_def)
      have "stop_at d e sh' p" "closed sh' = closed (shared c)"
        "done_ch sh' = done_ch (shared c)" "down sh' = down (shared c)"
        using p by (simp_all add: sh'_def stop_at_upd)
      moreover have "loop_at d e sh' u q' = loop_at d e (shared c) u q'" for u q'
        by (simp add: sh'_def loop_at_upd)
      ultimately show ?thesis
        using c' L152 q g f by (simp add: stop_inv_def goto_def)
    qed
  next
    case L148
    with s have "c' = goto (Suc 0) L132 (c\<lparr>utx := None\<rparr>)" by simp
    with L148 p q g f show ?thesis
      by (simp add: stop_inv_def goto_def)
  qed (use s q in simp_all)
qed

lemma stop_inv_step:
  assumes "stop_inv d e c" and "act_step a c = Some c'"
  shows "stop_inv d e c'"
proof (cases a)
  case (Run i)
  from assms(1) have "length (goroutines c) = 2"
    by (auto simp: stop_inv_def)
  with assms(2) Run have "i = 0 \<or> i = Suc 0"
    by (auto simp: act_step_def split: if_splits)
  with assms Run show ?thesis
    using stop_inv_Run0 stop_inv_Run1 by blast
next
  case (Receive i s)
  from assms(1) obtain p q where g: "goroutines c = [p, q]"
    and p: "stop_at d e (shared c) p" and q: "loop_at d e (shared c) (utx c) q"
    and f: "d \<noteq> e" "\<not> crashed c" "done_ch (shared c) = Some d" "down (shared c) = Some e"
    unfolding stop_inv_def by blast
  from assms(2) Receive f(2) have i: "i < 2" and r: "receive i s ([p, q] ! i) c = Some c'"
    by (auto simp: act_step_def g split: if_splits)
  from i have "i = 0 \<or> i = Suc 0" by auto
  then show ?thesis
  proof
    assume "i = 0"
    with r p show ?thesis by (cases p) simp_all
  next
    assume i1: "i = Suc 0"
    with r have r': "receive (Suc 0) s q c = Some c'" by simp
    then obtain d' nc where q': "q = L133 d' (Some nc)"
      by (cases q) (auto elim: receive.elims)
    with r' have "c' = goto (Suc 0) (L147 s) c"
      by (auto split: if_splits)
    with q' p q g f show ?thesis
      by (simp add: stop_inv_def goto_def)
  qed
next
  case (Drop s)
  with assms(2) have "c' = c\<lparr>dropped := dropped c @ [s]\<rparr>"
    by (auto simp: act_step_def split: if_splits)
  with assms(1) show ?thesis
    by (simp add: stop_inv_def)
qed

lemma stop_inv_exec:
  assumes "stop_inv d e c" and "exec sched c = Some c'"
  shows "stop_inv d e c'"
  using assms
proof (induction sched arbitrary: c)
  case Nil
  then show ?case by simp
next
  case (Cons a sched)
  then show ?case
    by (auto split: option.splits dest: stop_inv_step)
qed

lemma quiescent_stop_inv:
  assumes "reachable st" and "on st"
  shows "\<exists>d e. stop_inv d e (quiescent st [S42])"
proof -
  from reachable_invariants [OF assms(1)] have c: "consistent st" by simp
  with assms(2) obtain d e where "done_ch st = Some d" "down st = Some e" "d \<noteq> e"
    "d \<notin> closed st" "e \<notin> closed st" "loops st = 1"
    by (auto simp: consistent_def)
  with assms(2) have "stop_inv d e (quiescent st [S42])"
    by (simp add: stop_inv_def quiescent_def)
  then show ?thesis by blast
qed

lemma all_returned_step:
  assumes "goroutines c = [Ret, Ret]" and "act_step a c = Some c'"
  shows "goroutines c' = [Ret, Ret] \<and> shared c' = shared c \<and> utx c' = utx c"
proof (cases a)
  case (Run i)
  with assms show ?thesis
    by (cases i rule: nat.exhaust [case_product nat.exhaust])
       (auto simp: act_step_def split: if_splits)
next
  case (Receive i s)
  with assms show ?thesis
    by (auto simp: act_step_def nth_Cons' split: if_splits)
next
  case (Drop s)
  with assms show ?thesis
    by (auto simp: act_step_def split: if_splits)
qed

lemma all_returned_exec:
  assumes "goroutines c = [Ret, Ret]" and "exec sched c = Some c'"
  shows "goroutines c' = [Ret, Ret] \<and> shared c' = shared c \<and> utx c' = utx c"
  using assms
proof (induction sched arbitrary: c)
  case Nil
  then show ?case by simp
next
  case (Cons a sched)
  from Cons.prems(2) obtain c1 where a: "act_step a c = Some c1" and e: "exec sched c1 = Some c'"
    by (auto split: option.splits)
  from all_returned_step [OF Cons.prems(1) a] Cons.IH [OF _ e] show ?case by simp
qed

text \<open>
  Claim C3. One goroutine calls \<^verbatim>\<open>Stop\<close> in a reachable active state while the dispatch
  goroutine runs and the operating system raises signals, under any schedule. Once
  \<^verbatim>\<open>Stop\<close> has returned, the dispatch goroutine has returned too, so no handler is
  running and the mutex is free; and whatever happens afterwards, signals raised included,
  the package state and the handlers' state stay as they are: no handler is called again.
  A signal raised around the stop is either received before \<^verbatim>\<open>done\<close> is seen closed,
  and then its handlers finish before \<^verbatim>\<open>Stop\<close> returns, or it is not received at all.
\<close>

theorem Stop_returns_after_last_handler:
  assumes "reachable st" and "on st"
    and "exec sched (quiescent st [S42]) = Some c"
    and "goroutines c ! 0 = Ret"
    and "exec sched' c = Some c'"
  shows "goroutines c = [Ret, Ret] \<and> utx c = None \<and> \<not> crashed c \<and> \<not> on (shared c) \<and>
         goroutines c' = [Ret, Ret] \<and> shared c' = shared c"
proof -
  from quiescent_stop_inv [OF assms(1,2)] obtain d e where
    "stop_inv d e (quiescent st [S42])" by blast
  from stop_inv_exec [OF this assms(3)] have i: "stop_inv d e c" .
  then obtain p q where g: "goroutines c = [p, q]"
    and p: "stop_at d e (shared c) p" and q: "loop_at d e (shared c) (utx c) q"
    and f: "\<not> crashed c"
    unfolding stop_inv_def by blast
  from g assms(4) have pr: "p = Ret" by simp
  with p have "e \<in> closed (shared c)" and off: "\<not> on (shared c)" by simp_all
  with q have qr: "q = Ret \<and> utx c = None" by (cases q) simp_all
  with g pr have gr: "goroutines c = [Ret, Ret]" by simp
  from all_returned_exec [OF gr assms(5)] gr qr f off show ?thesis
    by simp
qed

lemma ex_schedule_run: "exec ex_schedule (quiescent ex_ABC [S42]) = Some ex_returned"
  by (simp add: ex_schedule_def ex_returned_def ex_ABC_def ex_stopped_def conc_defs model_defs
      ex_defs less_Suc_eq Collect_conv_if insert_commute)

lemma ex_returned_drop:
  "exec [Drop SIGUSR1, Drop SIGUSR2] ex_returned =
     Some (ex_returned\<lparr>dropped := [SIGUSR1, SIGUSR1, SIGUSR2]\<rparr>)"
  by (simp add: ex_returned_def conc_defs less_Suc_eq)

theorem Stop_returns_after_last_handler_witness:
  "reachable ex_ABC \<and> on ex_ABC \<and>
   exec ex_schedule (quiescent ex_ABC [S42]) = Some ex_returned \<and>
   goroutines ex_returned ! 0 = Ret \<and>
   exec [Drop SIGUSR1, Drop SIGUSR2] ex_returned =
     Some (ex_returned\<lparr>dropped := [SIGUSR1, SIGUSR1, SIGUSR2]\<rparr>) \<and>
   goroutines ex_returned = [Ret, Ret] \<and>
   calls (shared ex_returned) = [(hA, SIGUSR1, True), (hB, SIGUSR1, False)] \<and>
   shared (ex_returned\<lparr>dropped := [SIGUSR1, SIGUSR1, SIGUSR2]\<rparr>) = shared ex_returned"
proof -
  have o: "on ex_ABC" by (simp add: ex_ABC_def)
  have g: "goroutines ex_returned ! 0 = Ret" by (simp add: ex_returned_def)
  from Stop_returns_after_last_handler
    [OF ex_ABC_reachable o ex_schedule_run g ex_returned_drop]
  show ?thesis
    using ex_ABC_reachable o ex_schedule_run g ex_returned_drop
    by (simp add: ex_returned_def)
qed

text \<open>
  \<^verbatim>\<open>Stop\<close> is never stuck for good: from every configuration it can reach beside the
  dispatch goroutine, some schedule lets it return (the handlers in flight finish, the
  dispatch goroutine sees \<^verbatim>\<open>done\<close> closed and closes \<^verbatim>\<open>down\<close>).
\<close>

lemma loop_rank_upd:
  "loop_rank (sh\<lparr>closed := x\<rparr>) q = loop_rank sh q"
  "loop_rank (sh\<lparr>on := b\<rparr>) q = loop_rank sh q"
  "loop_rank (signal_Stop n sh) q = loop_rank sh q"
  by (cases q; simp add: chain_of_def signal_Stop_def split: option.splits)+

lemma Stop_progress_step:
  assumes "stop_inv d e c" and "goroutines c ! 0 \<noteq> Ret"
  shows "\<exists>i c1. act_step (Run i) c = Some c1 \<and> rank c1 < rank c"
proof -
  from assms(1) obtain p q where g: "goroutines c = [p, q]"
    and p: "stop_at d e (shared c) p" and q: "loop_at d e (shared c) (utx c) q"
    and f: "d \<noteq> e" "\<not> crashed c" "done_ch (shared c) = Some d" "down (shared c) = Some e"
    unfolding stop_inv_def by blast
  have run0: "act_step (Run 0) c = stmt 0 p c" and run1: "act_step (Run 1) c = stmt 1 q c"
    using g f(2) by (simp_all add: act_step_def)
  have loop_moves: "\<exists>c1. stmt 1 q c = Some c1 \<and> goroutines c1 ! 0 = p \<and>
      loop_rank (shared c1) (goroutines c1 ! 1) < loop_rank (shared c) q"
    if open_e: "e \<notin> closed (shared c)" and closed_d: "d \<in> closed (shared c)"
  proof (cases q)
    case L132
    with g show ?thesis by (simp add: goto_def)
  next
    case (L133 d' n')
    with q closed_d g show ?thesis by (simp add: goto_def)
  next
    case L135
    with open_e f g show ?thesis by (simp add: goto_def close_chan_def)
  next
    case (L147 s)
    with q g show ?thesis by (simp add: goto_def)
  next
    case (L150 s)
    with g show ?thesis by (simp add: goto_def)
  next
    case (L152 s hs)
    with g show ?thesis by (cases hs) (simp_all add: goto_def Let_def)
  next
    case L148
    with g show ?thesis by (simp add: goto_def)
  next
    case Ret
    with q open_e show ?thesis by simp
  qed (use q in simp_all)
  show ?thesis
  proof (cases p)
    case S42
    with p g have "stmt 0 p c = Some (goto 0 S43 c)" by simp
    with S42 g run0 show ?thesis
      by (intro exI [of _ 0] exI [of _ "goto 0 S43 c"]) (simp add: rank_def goto_def)
  next
    case S43
    let ?c1 = "goto 0 S44 (c\<lparr>shared := signal_Stop (nch (shared c)) (shared c)\<rparr>)"
    from S43 have "stmt 0 p c = Some ?c1" by simp
    with S43 g run0 show ?thesis
      by (intro exI [of _ 0] exI [of _ ?c1])
         (simp add: rank_def goto_def loop_rank_upd)
  next
    case S44
    let ?c1 = "goto 0 S45 (c\<lparr>shared := (shared c)\<lparr>closed := insert d (closed (shared c))\<rparr>\<rparr>)"
    from S44 p f have "stmt 0 p c = Some ?c1" by (simp add: close_chan_def)
    with S44 g run0 show ?thesis
      by (intro exI [of _ 0] exI [of _ ?c1])
         (simp add: rank_def goto_def loop_rank_upd)
  next
    case S45
    let ?c1 = "goto 0 (S45w (down (shared c))) c"
    from S45 have "stmt 0 p c = Some ?c1" by simp
    with S45 g run0 show ?thesis
      by (intro exI [of _ 0] exI [of _ ?c1]) (simp add: rank_def goto_def)
  next
    case (S45w d')
    with p have d': "d' = Some e" and cd: "d \<in> closed (shared c)" by simp_all
    show ?thesis
    proof (cases "e \<in> closed (shared c)")
      case True
      with S45w d' have "stmt 0 p c = Some (goto 0 S46 c)"
        by (simp add: recv_closed_def)
      with S45w g run0 show ?thesis
        by (intro exI [of _ 0] exI [of _ "goto 0 S46 c"]) (simp add: rank_def goto_def)
    next
      case False
      from loop_moves [OF False cd] obtain c1 where "stmt 1 q c = Some c1"
        "goroutines c1 ! 0 = p"
        "loop_rank (shared c1) (goroutines c1 ! 1) < loop_rank (shared c) q"
        by blast
      with run1 g show ?thesis
        by (intro exI [of _ 1] exI [of _ c1]) (simp add: rank_def)
    qed
  next
    case S46
    let ?c1 = "goto 0 Ret (c\<lparr>shared := (shared c)\<lparr>on := False\<rparr>\<rparr>)"
    from S46 have "stmt 0 p c = Some ?c1" by simp
    with S46 g run0 show ?thesis
      by (intro exI [of _ 0] exI [of _ ?c1])
         (simp add: rank_def goto_def loop_rank_upd)
  next
    case Ret
    with assms(2) g show ?thesis by simp
  qed (use p in simp_all)
qed

lemma Stop_can_return_inv:
  assumes "stop_inv d e c"
  shows "\<exists>sched c'. exec sched c = Some c' \<and> goroutines c' ! 0 = Ret"
  using assms
proof (induction "rank c" arbitrary: c rule: less_induct)
  case less
  show ?case
  proof (cases "goroutines c ! 0 = Ret")
    case True
    then have "exec [] c = Some c \<and> goroutines c ! 0 = Ret" by simp
    then show ?thesis by blast
  next
    case False
    from Stop_progress_step [OF less.prems False] obtain i c1 where
      s: "act_step (Run i) c = Some c1" and r: "rank c1 < rank c"
      by blast
    from stop_inv_step [OF less.prems s] have "stop_inv d e c1" .
    from less.hyps [OF r this] obtain sched c' where
      "exec sched c1 = Some c'" "goroutines c' ! 0 = Ret"
      by blast
    with s have "exec (Run i # sched) c = Some c' \<and> goroutines c' ! 0 = Ret" by simp
    then show ?thesis by blast
  qed
qed

lemma Stop_can_always_return:
  assumes "reachable st" and "on st" and "exec sched (quiescent st [S42]) = Some c"
  shows "\<exists>sched' c'. exec sched' c = Some c' \<and> goroutines c' ! 0 = Ret"
proof -
  from quiescent_stop_inv [OF assms(1,2)] obtain d e where
    "stop_inv d e (quiescent st [S42])" by blast
  from stop_inv_exec [OF this assms(3)] show ?thesis
    by (rule Stop_can_return_inv)
qed

section \<open>Stop: what it waits for, what it leaves, what the next registration replaces\<close>

text \<open>
  The receive of line 45, beside the dispatch goroutine: the channel \<^verbatim>\<open>Stop\<close> waits on is
  \<^verbatim>\<open>down\<close>; while \<^verbatim>\<open>down\<close> is open \<^verbatim>\<open>Stop\<close> has no step; and \<^verbatim>\<open>Stop\<close> is past the
  receive only when \<^verbatim>\<open>done\<close> and \<^verbatim>\<open>down\<close> are closed and the dispatch goroutine has
  returned.
\<close>

lemma Stop_waits_for_down:
  assumes "stop_inv d e c"
  shows "(\<forall>d'. goroutines c ! 0 = S45w d' \<longrightarrow> d' = Some e) \<and>
         (goroutines c ! 0 = S45w (Some e) \<and> e \<notin> closed (shared c) \<longrightarrow>
            act_step (Run 0) c = None) \<and>
         (goroutines c ! 0 = S46 \<or> goroutines c ! 0 = Ret \<longrightarrow>
            d \<in> closed (shared c) \<and> e \<in> closed (shared c) \<and> goroutines c ! 1 = Ret)"
proof -
  from assms obtain p q where g: "goroutines c = [p, q]"
    and p: "stop_at d e (shared c) p" and q: "loop_at d e (shared c) (utx c) q"
    and f: "\<not> crashed c"
    unfolding stop_inv_def by blast
  have run0: "act_step (Run 0) c = stmt 0 p c"
    using g f by (simp add: act_step_def)
  have 1: "d' = Some e" if "p = S45w d'" for d'
    using p that by simp
  have 2: "act_step (Run 0) c = None" if "p = S45w (Some e)" "e \<notin> closed (shared c)"
    using that by (simp add: run0 recv_closed_def)
  have 3: "d \<in> closed (shared c) \<and> e \<in> closed (shared c) \<and> q = Ret"
    if "p = S46 \<or> p = Ret"
  proof -
    from that p have de: "d \<in> closed (shared c)" "e \<in> closed (shared c)"
      by (elim disjE; simp)+
    with q have "q = Ret" by (cases q) simp_all
    with de show ?thesis by simp
  qed
  have g0: "goroutines c ! 0 = p" "goroutines c ! 1 = q"
    using g by simp_all
  have A: "\<forall>d'. p = S45w d' \<longrightarrow> d' = Some e"
    using 1 by blast
  have B: "p = S45w (Some e) \<and> e \<notin> closed (shared c) \<longrightarrow> act_step (Run 0) c = None"
    using 2 by blast
  have C: "p = S46 \<or> p = Ret \<longrightarrow>
      d \<in> closed (shared c) \<and> e \<in> closed (shared c) \<and> q = Ret"
    using 3 by blast
  show ?thesis
    unfolding g0 by (rule conjI [OF A conjI [OF B C]])
qed

lemma ex_waiting_run:
  "exec [Run 0, Run 0, Run 0, Run 0] (quiescent ex_ABC [S42]) = Some ex_waiting"
  by (simp add: ex_waiting_def ex_ABC_def conc_defs model_defs ex_defs less_Suc_eq
      Collect_conv_if insert_commute)

lemma ex_waiting_blocked: "act_step (Run 0) ex_waiting = None"
  by (simp add: ex_waiting_def ex_ABC_def conc_defs model_defs)

text \<open>
  Claim C6 says that \<^verbatim>\<open>Stop\<close> fully resets the registry state. \<^verbatim>\<open>Stop\<close> (lines 41 to
  48) assigns to \<^verbatim>\<open>on\<close> only. After \<^verbatim>\<open>Stop\<close> in \<open>ex_ABC\<close> the map still holds the
  chain of \<^verbatim>\<open>SIGUSR1\<close>, and \<^verbatim>\<open>nch\<close>, \<^verbatim>\<open>done\<close> and \<^verbatim>\<open>down\<close> still hold the channels
  of the stopped activation, where at process start all four are \<^verbatim>\<open>nil\<close>.
\<close>

theorem Stop_leaves_registry_in_place:
  "reachable ex_ABC \<and> on ex_ABC \<and> chain_of ex_ABC SIGUSR1 = [hA, hB, hC] \<and>
   Stop ex_ABC = Inr ex_stopped \<and>
   handlers ex_stopped = handlers ex_ABC \<and> chain_of ex_stopped SIGUSR1 = [hA, hB, hC] \<and>
   nch ex_stopped = Some 2 \<and> nch ex_ABC = Some 2 \<and>
   done_ch ex_stopped = Some 0 \<and> done_ch ex_ABC = Some 0 \<and>
   down ex_stopped = Some 1 \<and> down ex_ABC = Some 1 \<and>
   handlers (init (world ex_stopped)) = None \<and> nch (init (world ex_stopped)) = None \<and>
   done_ch (init (world ex_stopped)) = None \<and> down (init (world ex_stopped)) = None"
  using ex_ABC_reachable ex_ABC_Stop
  by (simp add: ex_ABC_def ex_stopped_def chain_of_def init_def)

text \<open>
  Claim C6, amended. Called when the package is active, \<^verbatim>\<open>Stop\<close> resets nothing but
  \<^verbatim>\<open>on\<close>: whenever it returns, the map and the three channel variables are as they
  were, \<^verbatim>\<open>done\<close> was open and is now closed (a second \<^verbatim>\<open>close\<close> would panic, so the
  request is raised once), and \<^verbatim>\<open>down\<close> is closed; and if no dispatch goroutine runs
  while \<^verbatim>\<open>done\<close> and \<^verbatim>\<open>down\<close> are open, \<^verbatim>\<open>Stop\<close> blocks for ever. In a reachable
  active state \<^verbatim>\<open>Stop\<close> returns, having unsubscribed \<^verbatim>\<open>nch\<close> from every signal, closed
  \<^verbatim>\<open>done\<close>, and called no handler. Under every schedule of \<^verbatim>\<open>Stop\<close> beside the dispatch
  goroutine, \<^verbatim>\<open>Stop\<close> waits on \<^verbatim>\<open>down\<close>, cannot take a step while \<^verbatim>\<open>down\<close> is open, and
  is past line 45 only when the dispatch goroutine has closed \<^verbatim>\<open>down\<close> and returned.
  It is the next registration that, finding \<^verbatim>\<open>on\<close> false, replaces the map and the
  channels and so starts a fresh instance: its chains are those the same registration
  builds at process start, the three channels are newly allocated and open, the
  subscriptions of the new \<^verbatim>\<open>nch\<close> are exactly the signals of the call, the old \<^verbatim>\<open>nch\<close>
  stays unsubscribed, and one dispatch goroutine runs.
\<close>

theorem Stop_tears_down_register_rebuilds:
  assumes "on st"
  shows "(\<forall>st1. Stop st = Inr st1 \<longrightarrow>
            \<not> on st1 \<and> handlers st1 = handlers st \<and> nch st1 = nch st \<and>
            done_ch st1 = done_ch st \<and> down st1 = down st \<and> nalloc st1 = nalloc st \<and>
            (\<exists>d e. done_ch st = Some d \<and> d \<notin> closed st \<and> d \<in> closed st1 \<and>
                   down st = Some e \<and> e \<in> closed st1)) \<and>
         (loops st = 0 \<and>
          (\<exists>d. done_ch st = Some d \<and> d \<notin> closed st \<and>
               (down st = None \<or> (\<exists>e. down st = Some e \<and> e \<noteq> d \<and> e \<notin> closed st))) \<longrightarrow>
            Stop st = Inl BlocksForever) \<and>
         (reachable st \<longrightarrow>
            (\<exists>n d e st1.
               nch st = Some n \<and> done_ch st = Some d \<and> down st = Some e \<and>
               n < nalloc st \<and> d < nalloc st \<and> e < nalloc st \<and>
               d \<notin> closed st \<and> e \<notin> closed st \<and> loops st = 1 \<and>
               Stop st = Inr st1 \<and>
               (\<forall>s. (n, s) \<notin> notified st1) \<and>
               closed st1 = insert e (insert d (closed st)) \<and>
               loops st1 = 0 \<and> \<not> on st1 \<and> calls st1 = calls st \<and>
               handlers st1 = handlers st \<and> nch st1 = nch st \<and>
               done_ch st1 = done_ch st \<and> down st1 = down st \<and>
               (\<forall>sched c. exec sched (quiescent st [S42]) = Some c \<longrightarrow>
                  (\<forall>d'. goroutines c ! 0 = S45w d' \<longrightarrow> d' = Some e) \<and>
                  (goroutines c ! 0 = S45w (Some e) \<and> e \<notin> closed (shared c) \<longrightarrow>
                     act_step (Run 0) c = None) \<and>
                  (goroutines c ! 0 = S46 \<or> goroutines c ! 0 = Ret \<longrightarrow>
                     d \<in> closed (shared c) \<and> e \<in> closed (shared c) \<and>
                     goroutines c ! 1 = Ret)) \<and>
               (\<forall>h sl. \<exists>st2 stf m'.
                  register h sl st1 = Inr st2 \<and>
                  register h sl (init (world st1)) = Inr stf \<and>
                  handlers st2 = Some m' \<and> handlers stf = Some m' \<and> dom m' = set sl \<and>
                  on st2 \<and> loops st2 = 1 \<and>
                  done_ch st2 = Some (nalloc st) \<and> down st2 = Some (nalloc st + 1) \<and>
                  nch st2 = Some (nalloc st + 2) \<and>
                  nalloc st \<notin> closed st2 \<and> nalloc st + 1 \<notin> closed st2 \<and>
                  (\<forall>s. ((nalloc st + 2, s) \<in> notified st2) = (s \<in> set sl)) \<and>
                  (\<forall>s. (n, s) \<notin> notified st2))))"
proof (intro conjI)
  show "\<forall>st1. Stop st = Inr st1 \<longrightarrow>
            \<not> on st1 \<and> handlers st1 = handlers st \<and> nch st1 = nch st \<and>
            done_ch st1 = done_ch st \<and> down st1 = down st \<and> nalloc st1 = nalloc st \<and>
            (\<exists>d e. done_ch st = Some d \<and> d \<notin> closed st \<and> d \<in> closed st1 \<and>
                   down st = Some e \<and> e \<in> closed st1)"
    using Stop_frame [OF assms] by blast
next
  show "loops st = 0 \<and>
          (\<exists>d. done_ch st = Some d \<and> d \<notin> closed st \<and>
               (down st = None \<or> (\<exists>e. down st = Some e \<and> e \<noteq> d \<and> e \<notin> closed st))) \<longrightarrow>
            Stop st = Inl BlocksForever"
    using Stop_blocks [OF assms] by blast
next
  show "reachable st \<longrightarrow>
            (\<exists>n d e st1.
               nch st = Some n \<and> done_ch st = Some d \<and> down st = Some e \<and>
               n < nalloc st \<and> d < nalloc st \<and> e < nalloc st \<and>
               d \<notin> closed st \<and> e \<notin> closed st \<and> loops st = 1 \<and>
               Stop st = Inr st1 \<and>
               (\<forall>s. (n, s) \<notin> notified st1) \<and>
               closed st1 = insert e (insert d (closed st)) \<and>
               loops st1 = 0 \<and> \<not> on st1 \<and> calls st1 = calls st \<and>
               handlers st1 = handlers st \<and> nch st1 = nch st \<and>
               done_ch st1 = done_ch st \<and> down st1 = down st \<and>
               (\<forall>sched c. exec sched (quiescent st [S42]) = Some c \<longrightarrow>
                  (\<forall>d'. goroutines c ! 0 = S45w d' \<longrightarrow> d' = Some e) \<and>
                  (goroutines c ! 0 = S45w (Some e) \<and> e \<notin> closed (shared c) \<longrightarrow>
                     act_step (Run 0) c = None) \<and>
                  (goroutines c ! 0 = S46 \<or> goroutines c ! 0 = Ret \<longrightarrow>
                     d \<in> closed (shared c) \<and> e \<in> closed (shared c) \<and>
                     goroutines c ! 1 = Ret)) \<and>
               (\<forall>h sl. \<exists>st2 stf m'.
                  register h sl st1 = Inr st2 \<and>
                  register h sl (init (world st1)) = Inr stf \<and>
                  handlers st2 = Some m' \<and> handlers stf = Some m' \<and> dom m' = set sl \<and>
                  on st2 \<and> loops st2 = 1 \<and>
                  done_ch st2 = Some (nalloc st) \<and> down st2 = Some (nalloc st + 1) \<and>
                  nch st2 = Some (nalloc st + 2) \<and>
                  nalloc st \<notin> closed st2 \<and> nalloc st + 1 \<notin> closed st2 \<and>
                  (\<forall>s. ((nalloc st + 2, s) \<in> notified st2) = (s \<in> set sl)) \<and>
                  (\<forall>s. (n, s) \<notin> notified st2)))"
  proof
    assume r: "reachable st"
    from Stop_then_register_fresh [OF r assms] obtain n d e st1 where
      a: "nch st = Some n \<and> done_ch st = Some d \<and> down st = Some e \<and>
           n < nalloc st \<and> d < nalloc st \<and> e < nalloc st \<and>
           d \<notin> closed st \<and> e \<notin> closed st \<and> loops st = 1"
      and s: "Stop st = Inr st1"
      and b: "(\<forall>s. (n, s) \<notin> notified st1) \<and>
           closed st1 = insert e (insert d (closed st)) \<and>
           loops st1 = 0 \<and> \<not> on st1 \<and> calls st1 = calls st"
      and f: "\<forall>h sl. \<exists>st2 stf m'.
              register h sl st1 = Inr st2 \<and> register h sl (init (world st1)) = Inr stf \<and>
              handlers st2 = Some m' \<and> handlers stf = Some m' \<and> dom m' = set sl \<and>
              on st2 \<and> loops st2 = 1 \<and>
              done_ch st2 = Some (nalloc st) \<and> down st2 = Some (nalloc st + 1) \<and>
              nch st2 = Some (nalloc st + 2) \<and>
              nalloc st \<notin> closed st2 \<and> nalloc st + 1 \<notin> closed st2 \<and>
              (\<forall>s. ((nalloc st + 2, s) \<in> notified st2) = (s \<in> set sl)) \<and>
              (\<forall>s. (n, s) \<notin> notified st2)"
      by blast
    from Stop_frame [OF assms s] have fr: "handlers st1 = handlers st \<and> nch st1 = nch st \<and>
               done_ch st1 = done_ch st \<and> down st1 = down st"
      by blast
    from quiescent_stop_inv [OF r assms] obtain d0 e0 where
      i: "stop_inv d0 e0 (quiescent st [S42])" by blast
    then have "done_ch st = Some d0" "down st = Some e0"
      by (simp_all add: stop_inv_def quiescent_def)
    with a have "d0 = d" "e0 = e" by simp_all
    with i have i': "stop_inv d e (quiescent st [S42])" by simp
    have w: "\<forall>sched c. exec sched (quiescent st [S42]) = Some c \<longrightarrow>
                  (\<forall>d'. goroutines c ! 0 = S45w d' \<longrightarrow> d' = Some e) \<and>
                  (goroutines c ! 0 = S45w (Some e) \<and> e \<notin> closed (shared c) \<longrightarrow>
                     act_step (Run 0) c = None) \<and>
                  (goroutines c ! 0 = S46 \<or> goroutines c ! 0 = Ret \<longrightarrow>
                     d \<in> closed (shared c) \<and> e \<in> closed (shared c) \<and>
                     goroutines c ! 1 = Ret)"
    proof (intro allI impI)
      fix sched c
      assume "exec sched (quiescent st [S42]) = Some c"
      from stop_inv_exec [OF i' this] have "stop_inv d e c" .
      then show "(\<forall>d'. goroutines c ! 0 = S45w d' \<longrightarrow> d' = Some e) \<and>
                  (goroutines c ! 0 = S45w (Some e) \<and> e \<notin> closed (shared c) \<longrightarrow>
                     act_step (Run 0) c = None) \<and>
                  (goroutines c ! 0 = S46 \<or> goroutines c ! 0 = Ret \<longrightarrow>
                     d \<in> closed (shared c) \<and> e \<in> closed (shared c) \<and>
                     goroutines c ! 1 = Ret)"
        by (rule Stop_waits_for_down)
    qed
    show "\<exists>n d e st1.
               nch st = Some n \<and> done_ch st = Some d \<and> down st = Some e \<and>
               n < nalloc st \<and> d < nalloc st \<and> e < nalloc st \<and>
               d \<notin> closed st \<and> e \<notin> closed st \<and> loops st = 1 \<and>
               Stop st = Inr st1 \<and>
               (\<forall>s. (n, s) \<notin> notified st1) \<and>
               closed st1 = insert e (insert d (closed st)) \<and>
               loops st1 = 0 \<and> \<not> on st1 \<and> calls st1 = calls st \<and>
               handlers st1 = handlers st \<and> nch st1 = nch st \<and>
               done_ch st1 = done_ch st \<and> down st1 = down st \<and>
               (\<forall>sched c. exec sched (quiescent st [S42]) = Some c \<longrightarrow>
                  (\<forall>d'. goroutines c ! 0 = S45w d' \<longrightarrow> d' = Some e) \<and>
                  (goroutines c ! 0 = S45w (Some e) \<and> e \<notin> closed (shared c) \<longrightarrow>
                     act_step (Run 0) c = None) \<and>
                  (goroutines c ! 0 = S46 \<or> goroutines c ! 0 = Ret \<longrightarrow>
                     d \<in> closed (shared c) \<and> e \<in> closed (shared c) \<and>
                     goroutines c ! 1 = Ret)) \<and>
               (\<forall>h sl. \<exists>st2 stf m'.
                  register h sl st1 = Inr st2 \<and>
                  register h sl (init (world st1)) = Inr stf \<and>
                  handlers st2 = Some m' \<and> handlers stf = Some m' \<and> dom m' = set sl \<and>
                  on st2 \<and> loops st2 = 1 \<and>
                  done_ch st2 = Some (nalloc st) \<and> down st2 = Some (nalloc st + 1) \<and>
                  nch st2 = Some (nalloc st + 2) \<and>
                  nalloc st \<notin> closed st2 \<and> nalloc st + 1 \<notin> closed st2 \<and>
                  (\<forall>s. ((nalloc st + 2, s) \<in> notified st2) = (s \<in> set sl)) \<and>
                  (\<forall>s. (n, s) \<notin> notified st2))"
      apply (rule exI [of _ n], rule exI [of _ d], rule exI [of _ e], rule exI [of _ st1])
      apply (intro conjI)
      using a s b fr w f by blast+
  qed
qed

theorem Stop_tears_down_register_rebuilds_witness:
  "reachable ex_ABC \<and> on ex_ABC \<and> Stop ex_ABC = Inr ex_stopped \<and> \<not> on ex_stopped \<and>
   notified ex_stopped = {} \<and> closed ex_stopped = {0, 1} \<and>
   handlers ex_stopped = handlers ex_ABC \<and> nch ex_stopped = nch ex_ABC \<and>
   done_ch ex_stopped = done_ch ex_ABC \<and> down ex_stopped = down ex_ABC \<and>
   down ex_ABC = Some 1 \<and>
   exec [Run 0, Run 0, Run 0, Run 0] (quiescent ex_ABC [S42]) = Some ex_waiting \<and>
   goroutines ex_waiting ! 0 = S45w (Some 1) \<and> 1 \<notin> closed (shared ex_waiting) \<and>
   act_step (Run 0) ex_waiting = None \<and>
   exec ex_schedule (quiescent ex_ABC [S42]) = Some ex_returned \<and>
   goroutines ex_returned ! 0 = Ret \<and> goroutines ex_returned ! 1 = Ret \<and>
   closed (shared ex_returned) = {0, 1} \<and>
   on (ex_ABC\<lparr>loops := 0\<rparr>) \<and> loops (ex_ABC\<lparr>loops := 0\<rparr>) = 0 \<and>
   done_ch (ex_ABC\<lparr>loops := 0\<rparr>) = Some 0 \<and> 0 \<notin> closed (ex_ABC\<lparr>loops := 0\<rparr>) \<and>
   down (ex_ABC\<lparr>loops := 0\<rparr>) = Some 1 \<and> 1 \<notin> closed (ex_ABC\<lparr>loops := 0\<rparr>) \<and>
   Stop (ex_ABC\<lparr>loops := 0\<rparr>) = Inl BlocksForever \<and>
   register hA [SIGUSR2] ex_stopped = Inr ex_fresh \<and>
   chain_of ex_fresh SIGUSR1 = [] \<and> chain_of ex_fresh SIGUSR2 = [hA] \<and>
   done_ch ex_fresh = Some 3 \<and> down ex_fresh = Some 4 \<and>
   nch ex_fresh = Some 5 \<and> notified ex_fresh = {(5, SIGUSR2)}"
proof -
  have o: "on ex_ABC" "on (ex_ABC\<lparr>loops := 0\<rparr>)"
    by (simp_all add: ex_ABC_def)
  from Stop_tears_down_register_rebuilds [OF o(1), THEN conjunct1] ex_ABC_Stop
  have a: "\<not> on ex_stopped \<and> handlers ex_stopped = handlers ex_ABC \<and>
      nch ex_stopped = nch ex_ABC \<and> done_ch ex_stopped = done_ch ex_ABC \<and>
      down ex_stopped = down ex_ABC"
    by simp
  have p: "loops (ex_ABC\<lparr>loops := 0\<rparr>) = 0 \<and> done_ch (ex_ABC\<lparr>loops := 0\<rparr>) = Some 0 \<and>
      0 \<notin> closed (ex_ABC\<lparr>loops := 0\<rparr>) \<and> down (ex_ABC\<lparr>loops := 0\<rparr>) = Some 1 \<and>
      1 \<notin> closed (ex_ABC\<lparr>loops := 0\<rparr>)"
    by (simp add: ex_ABC_def)
  with Stop_tears_down_register_rebuilds [OF o(2), THEN conjunct2, THEN conjunct1]
  have b: "Stop (ex_ABC\<lparr>loops := 0\<rparr>) = Inl BlocksForever"
    by simp
  have e: "down ex_ABC = Some 1"
    by (simp add: ex_ABC_def)
  from Stop_tears_down_register_rebuilds [OF o(1), THEN conjunct2, THEN conjunct2]
    ex_ABC_reachable e
  have w: "\<forall>sched c. exec sched (quiescent ex_ABC [S42]) = Some c \<longrightarrow>
             (goroutines c ! 0 = S45w (Some 1) \<and> 1 \<notin> closed (shared c) \<longrightarrow>
                act_step (Run 0) c = None) \<and>
             (goroutines c ! 0 = S46 \<or> goroutines c ! 0 = Ret \<longrightarrow>
                1 \<in> closed (shared c) \<and> goroutines c ! 1 = Ret)"
    by auto
  have g: "goroutines ex_waiting ! 0 = S45w (Some 1)" "1 \<notin> closed (shared ex_waiting)"
    "goroutines ex_returned ! 0 = Ret" "closed (shared ex_returned) = {0, 1}"
    by (simp_all add: ex_waiting_def ex_returned_def ex_ABC_def ex_stopped_def)
  from w ex_waiting_run g(1,2) have c: "act_step (Run 0) ex_waiting = None"
    by blast
  from w ex_schedule_run g(3) have d: "goroutines ex_returned ! 1 = Ret"
    by blast
  have f: "chain_of ex_fresh SIGUSR1 = []" "chain_of ex_fresh SIGUSR2 = [hA]"
    "done_ch ex_fresh = Some 3" "down ex_fresh = Some 4"
    "nch ex_fresh = Some 5" "notified ex_fresh = {(5, SIGUSR2)}"
    "notified ex_stopped = {}" "closed ex_stopped = {0, 1}"
    by (simp_all add: ex_fresh_def ex_stopped_def chain_of_def ex_defs)
  from a b c d e f g o p ex_ABC_reachable ex_ABC_Stop ex_fresh_register ex_waiting_run
    ex_schedule_run
  show ?thesis
    by blast
qed

section \<open>The operations as schedules\<close>

text \<open>
  The functions \<open>Stop\<close>, \<open>register\<close> and \<open>deliver\<close> of the first part are what the
  goroutines do under the schedule that lets one operation run from beginning to end.
\<close>

lemma exec_append:
  "exec (xs @ ys) c = (case exec xs c of None \<Rightarrow> None | Some c' \<Rightarrow> exec ys c')"
  by (induction xs arbitrary: c) (simp_all split: option.splits)

lemma Stop_is_a_schedule:
  assumes "reachable st" and "on st" and "Stop st = Inr st1"
  shows "exec [Run 1, Run 0, Run 0, Run 0, Run 0, Run 1, Run 1, Run 0, Run 0] (quiescent st [S42]) =
           Some \<lparr>shared = st1, utx = None, goroutines = [Ret, Ret], crashed = False,
                  dropped = []\<rparr>"
proof -
  from reachable_invariants [OF assms(1)] have c: "consistent st" by simp
  with assms(2) obtain n d e where ch: "nch st = Some n" "done_ch st = Some d" "down st = Some e"
    and o: "d \<noteq> e" "d \<notin> closed st" "e \<notin> closed st" "loops st = 1"
    by (auto simp: consistent_def)
  from Stop_active_eq [OF c assms(2) ch] assms(3)
  have st1: "st1 = st\<lparr>on := False, closed := insert e (insert d (closed st)),
                          notified := {p \<in> notified st. fst p \<noteq> n}, loops := 0\<rparr>"
    by simp
  show ?thesis
    using ch o assms(2)
    by (simp add: st1 conc_defs signal_Stop_def close_chan_def recv_closed_def)
qed

lemma register_sig_on_loops:
  "register_sig h s st = Inr st' \<Longrightarrow> on st' = on st \<and> loops st' = loops st"
  by (auto simp: register_sig_def signal_Notify_def assign_def Let_def
      split: if_splits option.splits)

lemma register_loop_on_loops:
  "register_loop h sl st = Inr st' \<Longrightarrow> on st' = on st \<and> loops st' = loops st"
proof (induction sl arbitrary: st)
  case Nil
  then show ?case by simp
next
  case (Cons s sl)
  from Cons.prems obtain st1 where r: "register_sig h s st = Inr st1"
    and l: "register_loop h sl st1 = Inr st'"
    by (auto split: sum.splits)
  from register_sig_on_loops [OF r] Cons.IH [OF l] show ?case by simp
qed

lemma register_loop_is_a_schedule:
  assumes "register_loop h sl sh = Inr sh'"
  shows "exec (replicate (length sl + 1) (Run 0))
           \<lparr>shared = sh, utx = u, goroutines = R79 h sl # rest, crashed = False, dropped = dr\<rparr> =
         Some \<lparr>shared = sh', utx = u, goroutines = R91 # rest, crashed = False, dropped = dr\<rparr>"
  using assms
proof (induction sl arbitrary: sh)
  case Nil
  then show ?case by (simp add: conc_defs)
next
  case (Cons s sl)
  from Cons.prems obtain sh1 where r: "register_sig h s sh = Inr sh1"
    and l: "register_loop h sl sh1 = Inr sh'"
    by (auto split: sum.splits)
  have "act_step (Run 0)
          \<lparr>shared = sh, utx = u, goroutines = R79 h (s # sl) # rest, crashed = False,
             dropped = dr\<rparr> =
        Some \<lparr>shared = sh1, utx = u, goroutines = R79 h sl # rest, crashed = False,
                dropped = dr\<rparr>"
    using r by (simp add: conc_defs)
  with Cons.IH [OF l] show ?case by simp
qed

lemma register_is_a_schedule:
  assumes "register h sl st = Inr st'"
  shows "exec (replicate (length sl + (if on st then 5 else 7)) (Run 0))
           (quiescent st [R67 h sl]) = Some (quiescent st' [Ret])"
proof -
  define st1 where "st1 = (if \<not> on st then make_all st else st)"
  from assms obtain st2 where l: "register_loop h sl st1 = Inr st2"
    and st': "st' = (if \<not> on st2 then st2\<lparr>loops := loops st2 + 1, on := True\<rparr> else st2)"
    by (auto simp: register_def st1_def Let_def split: sum.splits)
  let ?rest = "replicate (loops st) L132"
  have "on st1 = on st" "loops st1 = loops st"
    by (simp_all add: st1_def make_all_def)
  with register_loop_on_loops [OF l] have f: "on st2 = on st" "loops st2 = loops st"
    by simp_all
  have a: "exec [Run 0, Run 0] (quiescent st [R67 h sl]) =
      Some \<lparr>shared = st1, utx = Some 0, goroutines = R79 h sl # ?rest, crashed = False,
              dropped = []\<rparr>"
    by (simp add: conc_defs st1_def)
  note b = register_loop_is_a_schedule [OF l, of "Some 0" ?rest "[]"]
  show ?thesis
  proof (cases "on st")
    case True
    have c: "exec [Run 0, Run 0]
        \<lparr>shared = st2, utx = Some 0, goroutines = R91 # ?rest, crashed = False, dropped = []\<rparr> =
        Some (quiescent st' [Ret])"
      using True f st' by (simp add: conc_defs)
    have "replicate (length sl + (if on st then 5 else 7)) (Run 0) =
        [Run 0, Run 0] @ replicate (length sl + 1) (Run 0) @ [Run 0, Run 0]"
      using True by (simp add: numeral_eq_Suc replicate_app_Cons_same)
    then show ?thesis by (simp only: exec_append a b c option.case)
  next
    case False
    have c: "exec [Run 0, Run 0, Run 0, Run 0]
        \<lparr>shared = st2, utx = Some 0, goroutines = R91 # ?rest, crashed = False, dropped = []\<rparr> =
        Some (quiescent st' [Ret])"
      using False f st' by (simp add: conc_defs replicate_append_same)
    have "replicate (length sl + (if on st then 5 else 7)) (Run 0) =
        [Run 0, Run 0] @ replicate (length sl + 1) (Run 0) @ [Run 0, Run 0, Run 0, Run 0]"
      using False by (simp add: numeral_eq_Suc replicate_app_Cons_same)
    then show ?thesis by (simp only: exec_append a b c option.case)
  qed
qed

lemma chain_is_a_schedule:
  "\<exists>k. exec (replicate k (Run 0))
          \<lparr>shared = sh, utx = u, goroutines = [L152 s hs], crashed = False, dropped = dr\<rparr> =
        Some \<lparr>shared = sh\<lparr>world := snd (run_chain hs s (world sh)),
                           calls := calls sh @ fst (run_chain hs s (world sh))\<rparr>,
               utx = u, goroutines = [L148], crashed = False, dropped = dr\<rparr>"
proof (induction hs arbitrary: sh)
  case Nil
  have "exec (replicate 1 (Run 0))
          \<lparr>shared = sh, utx = u, goroutines = [L152 s []], crashed = False, dropped = dr\<rparr> =
        Some \<lparr>shared = sh\<lparr>world := snd (run_chain [] s (world sh)),
                           calls := calls sh @ fst (run_chain [] s (world sh))\<rparr>,
               utx = u, goroutines = [L148], crashed = False, dropped = dr\<rparr>"
    by (simp add: conc_defs)
  then show ?case by blast
next
  case (Cons h hs)
  define r where "r = hdlr h s (world sh)"
  define sh1 where "sh1 = sh\<lparr>world := snd r, calls := calls sh @ [(h, s, fst r)]\<rparr>"
  have step: "act_step (Run 0)
          \<lparr>shared = sh, utx = u, goroutines = [L152 s (h # hs)], crashed = False, dropped = dr\<rparr> =
        Some \<lparr>shared = sh1, utx = u, goroutines = [if fst r then L152 s hs else L148],
                crashed = False, dropped = dr\<rparr>"
    by (simp add: conc_defs Let_def r_def sh1_def)
  show ?case
  proof (cases "fst r")
    case False
    with step have "exec (replicate 1 (Run 0))
          \<lparr>shared = sh, utx = u, goroutines = [L152 s (h # hs)], crashed = False, dropped = dr\<rparr> =
        Some \<lparr>shared = sh\<lparr>world := snd (run_chain (h # hs) s (world sh)),
                           calls := calls sh @ fst (run_chain (h # hs) s (world sh))\<rparr>,
               utx = u, goroutines = [L148], crashed = False, dropped = dr\<rparr>"
      by (simp add: r_def sh1_def Let_def)
    then show ?thesis by blast
  next
    case True
    from Cons.IH [of sh1] obtain k where "exec (replicate k (Run 0))
          \<lparr>shared = sh1, utx = u, goroutines = [L152 s hs], crashed = False, dropped = dr\<rparr> =
        Some \<lparr>shared = sh1\<lparr>world := snd (run_chain hs s (world sh1)),
                           calls := calls sh1 @ fst (run_chain hs s (world sh1))\<rparr>,
               utx = u, goroutines = [L148], crashed = False, dropped = dr\<rparr>"
      by blast
    with step True have "exec (replicate (Suc k) (Run 0))
          \<lparr>shared = sh, utx = u, goroutines = [L152 s (h # hs)], crashed = False, dropped = dr\<rparr> =
        Some \<lparr>shared = sh\<lparr>world := snd (run_chain (h # hs) s (world sh)),
                           calls := calls sh @ fst (run_chain (h # hs) s (world sh))\<rparr>,
               utx = u, goroutines = [L148], crashed = False, dropped = dr\<rparr>"
      by (simp add: r_def sh1_def Let_def)
    then show ?thesis by blast
  qed
qed

lemma deliver_is_a_schedule:
  assumes "reachable st" and "on st" and "has_key st s"
  shows "\<exists>k. exec ([Run 0, Receive 0 s, Run 0, Run 0] @ replicate k (Run 0) @ [Run 0])
               (quiescent st []) = Some (quiescent (dispatch s st) [])"
proof -
  from reachable_invariants [OF assms(1)] assms(2)
  have c: "consistent st" and so: "subscribed_once st" by simp_all
  from so obtain m n where m: "handlers st = Some m" and n: "nch st = Some n"
    and nt: "\<forall>s. ((n, s) \<in> notified st) = (m s \<noteq> None)"
    unfolding subscribed_once_def by blast
  from c assms(2) n obtain d where d: "done_ch st = Some d" "d \<notin> closed st" and l: "loops st = 1"
    by (auto simp: consistent_def)
  from nt m assms(3) have sub: "(n, s) \<in> notified st" by (simp add: has_key_def)
  have a: "exec [Run 0, Receive 0 s, Run 0, Run 0] (quiescent st []) =
      Some \<lparr>shared = st, utx = Some 0, goroutines = [L152 s (chain_of st s)], crashed = False,
              dropped = []\<rparr>"
    using n d l sub by (simp add: conc_defs)
  from chain_is_a_schedule [where sh = st and u = "Some 0" and s = s and hs = "chain_of st s"
      and dr = "[]"] obtain k where
    b: "exec (replicate k (Run 0))
          \<lparr>shared = st, utx = Some 0, goroutines = [L152 s (chain_of st s)], crashed = False,
             dropped = []\<rparr> =
        Some \<lparr>shared = dispatch s st, utx = Some 0, goroutines = [L148], crashed = False,
                dropped = []\<rparr>"
    by (auto simp: dispatch_def Let_def)
  have c: "exec [Run 0]
        \<lparr>shared = dispatch s st, utx = Some 0, goroutines = [L148], crashed = False,
           dropped = []\<rparr> = Some (quiescent (dispatch s st) [])"
    using l by (simp add: conc_defs)
  from a b c have "exec ([Run 0, Receive 0 s, Run 0, Run 0] @ replicate k (Run 0) @ [Run 0])
               (quiescent st []) = Some (quiescent (dispatch s st) [])"
    by (simp only: exec_append option.case)
  then show ?thesis by blast
qed

section \<open>Stop beside a registration\<close>

text \<open>
  No statement of \<^verbatim>\<open>Stop\<close> looks at the mutex or changes it: whoever holds \<^verbatim>\<open>utx\<close>,
  the statement does the same.
\<close>

lemma Stop_ignores_mutex:
  assumes "p \<in> {S42, S43, S44, S45, S45w d, S46}"
  shows "stmt i p (c\<lparr>utx := u\<rparr>) = map_option (\<lambda>c'. c'\<lparr>utx := u\<rparr>) (stmt i p c)"
  using assms
  by (auto simp: goto_def panic_def close_chan_def recv_closed_def split: option.splits)

text \<open>
  Claim C9 says that every access to the package state, those of \<^verbatim>\<open>Stop\<close> included, is
  made under \<^verbatim>\<open>utx\<close>. \<^verbatim>\<open>Stop\<close> never takes \<^verbatim>\<open>utx\<close>: in \<open>ex_locked\<close> a registration
  holds the mutex, and \<^verbatim>\<open>Stop\<close> reads \<^verbatim>\<open>on\<close> all the same. Under the schedule
  \<open>ex_race\<close> the registration saw \<^verbatim>\<open>on\<close> true at line 72 and sees it false at line 91,
  so it starts a dispatch goroutine on the channels of the stopped activation; that
  goroutine finds \<^verbatim>\<open>done\<close> closed and closes \<^verbatim>\<open>down\<close> a second time, which panics.
\<close>

theorem Stop_without_lock_crashes_register:
  "exec (take 3 ex_race) ex_race_start = Some ex_locked \<and>
   utx ex_locked = Some 1 \<and>
   act_step (Run 0) ex_locked = Some (ex_locked\<lparr>goroutines := [S43, R79 hA [SIGUSR2], L133 (Some 0) (Some 2)]\<rparr>) \<and>
   exec ex_race ex_race_start = Some ex_crashed \<and> crashed ex_crashed"
  by (simp add: ex_race_def ex_race_start_def ex_locked_def ex_crashed_def ex_ABC_def
      conc_defs model_defs ex_defs less_Suc_eq Collect_conv_if insert_commute)

theorem Stop_without_lock_crashes_register_witness:
  "exec ex_race ex_race_start = Some ex_crashed \<and> crashed ex_crashed \<and>
   goroutines ex_crashed = [Ret, Ret, Ret, L135] \<and> closed (shared ex_crashed) = {0, 1}"
  using Stop_without_lock_crashes_register by (simp add: ex_crashed_def)

end
